theory Spec2Isabelle
  imports Main
begin

section \<open>The query tree (consumed by rds.c)\<close>

text \<open>
  Modelled from the spec: the type declarations of \<open>tagsistant.h\<close>, which is not among
  the sources. The types below have the fields and constants that rds.c reads.

  The operator of a tag triple. rds.c switches on the four named constants and has no
  default branch; \<open>OTHER_OPERATOR\<close> stands for every other value the integer field
  can hold, for which each switch does nothing.
\<close>

datatype operator =
    TAGSISTANT_EQUAL_TO
  | TAGSISTANT_CONTAINS
  | TAGSISTANT_GREATER_THAN
  | TAGSISTANT_SMALLER_THAN
  | OTHER_OPERATOR

text \<open>
  Modelled from the spec: \<open>qtree_and_node\<close>, one tag atom with its three outgoing
  pointers. A pointer is an option (\<open>None\<close> is NULL); the character pointers \<open>tag\<close>,
  \<open>namespace\<close>, \<open>key\<close> and \<open>value\<close> are options too, and \<open>tag_id\<close> is the
  integer that \<open>%d\<close> prints. The C fields \<open>value\<close> and \<open>next\<close> are written
  \<open>tag_value\<close> and \<open>next_and\<close>. The structure is a finite tree: the loops of rds.c
  only read it, and they terminate exactly when no pointer chain is cyclic.
\<close>

datatype qtree_and_node = And_Node
  (tag_id: int)
  (tag: "string option")
  (namespace: "string option")
  (key: "string option")
  (operator: operator)
  (tag_value: "string option")
  (related: "qtree_and_node option")
  (negated: "qtree_and_node option")
  (next_and: "qtree_and_node option")

text \<open>
  Modelled from the spec: \<open>qtree_or_node\<close>, one conjunction (\<open>and_set\<close>) and the link
  to the next disjunct (the C field \<open>next\<close>, written \<open>next_or\<close>).
\<close>

datatype qtree_or_node = Or_Node
  (and_set: "qtree_and_node option")
  (next_or: "qtree_or_node option")

lemma size_next_and [termination_simp]: "size_option size (next_and n) < Suc (size n)"
  by (cases n) simp

lemma size_related [termination_simp]: "size_option size (related n) < Suc (size n)"
  by (cases n) simp

lemma size_negated [termination_simp]: "size_option size (negated n) < Suc (size n)"
  by (cases n) simp

lemma size_next_or [termination_simp]: "size_option size (next_or q) < Suc (size q)"
  by (cases q) simp

section \<open>Formatting\<close>

text \<open>
  \<open>g_string_append_printf\<close> with \<open>%s\<close> and a NULL pointer appends \<open>(null)\<close> (glibc).
\<close>

definition cstr :: "string option \<Rightarrow> string" where
  "cstr s = (case s of None \<Rightarrow> ''(null)'' | Some t \<Rightarrow> t)"

text \<open>The single quote character, which delimits the literals of the SQL statements.\<close>

definition sq :: string where
  "sq = [CHR 0x27]"

text \<open>\<open>%d\<close>: a decimal numeral, with a minus sign for a negative value.\<close>

definition digit_char :: "nat \<Rightarrow> char" where
  "digit_char d = ''0123456789'' ! d"

fun show_nat :: "nat \<Rightarrow> string" where
  "show_nat n = (if n < 10 then [digit_char n] else show_nat (n div 10) @ [digit_char (n mod 10)])"

declare show_nat.simps [simp del]

definition show_int :: "int \<Rightarrow> string" where
  "show_int i = (if i < 0 then ''-'' @ show_nat (nat (- i)) else show_nat (nat i))"

section \<open>SubqueryCanonicalizer: tagsistant_RDS_subquery_add_tag, tagsistant_RDS_build_subquery\<close>

definition tagsistant_RDS_subquery_add_tag :: "string \<Rightarrow> qtree_and_node \<Rightarrow> bool \<Rightarrow> string" where
  "tagsistant_RDS_subquery_add_tag subquery node is_negated =
     (let s1 = (if is_negated then subquery @ ''-/'' else subquery) in
      case tag node of
        Some t \<Rightarrow> s1 @ t @ ''/''
      | None \<Rightarrow>
          (let s2 = s1 @ cstr (namespace node) @ ''/'' @ cstr (key node) @ ''/'';
               s3 = (case operator node of
                       TAGSISTANT_EQUAL_TO \<Rightarrow> s2 @ ''eq/''
                     | TAGSISTANT_CONTAINS \<Rightarrow> s2 @ ''inc/''
                     | TAGSISTANT_GREATER_THAN \<Rightarrow> s2 @ ''gt/''
                     | TAGSISTANT_SMALLER_THAN \<Rightarrow> s2 @ ''lt/''
                     | OTHER_OPERATOR \<Rightarrow> s2)
           in s3 @ cstr (tag_value node) @ ''/''))"

text \<open>The first loop of \<open>tagsistant_RDS_build_subquery\<close>: the main chain, by \<open>next\<close>.\<close>

fun subquery_main_pass :: "string \<Rightarrow> qtree_and_node option \<Rightarrow> string" where
  "subquery_main_pass subquery None = subquery"
| "subquery_main_pass subquery (Some node_ptr) =
     subquery_main_pass (tagsistant_RDS_subquery_add_tag subquery node_ptr False) (next_and node_ptr)"

text \<open>
  The inner loop of the second pass: it starts at \<open>node_ptr->negated\<close> and steps by
  \<open>negated = negated->next\<close>.
\<close>

fun subquery_negated_chain :: "string \<Rightarrow> qtree_and_node option \<Rightarrow> string" where
  "subquery_negated_chain subquery None = subquery"
| "subquery_negated_chain subquery (Some neg) =
     subquery_negated_chain (tagsistant_RDS_subquery_add_tag subquery neg True) (next_and neg)"

text \<open>The outer loop of the second pass, over the main chain again.\<close>

fun subquery_negated_pass :: "string \<Rightarrow> qtree_and_node option \<Rightarrow> string" where
  "subquery_negated_pass subquery None = subquery"
| "subquery_negated_pass subquery (Some node_ptr) =
     subquery_negated_pass (subquery_negated_chain subquery (negated node_ptr)) (next_and node_ptr)"

definition tagsistant_RDS_build_subquery :: "qtree_or_node \<Rightarrow> string" where
  "tagsistant_RDS_build_subquery query =
     subquery_negated_pass (subquery_main_pass '''' (and_set query)) (and_set query)"

subsection \<open>The chains the loops walk\<close>

fun next_chain :: "qtree_and_node option \<Rightarrow> qtree_and_node list" where
  "next_chain None = []"
| "next_chain (Some n) = n # next_chain (next_and n)"

fun related_chain :: "qtree_and_node option \<Rightarrow> qtree_and_node list" where
  "related_chain None = []"
| "related_chain (Some n) = n # related_chain (related n)"

fun negated_chain :: "qtree_and_node option \<Rightarrow> qtree_and_node list" where
  "negated_chain None = []"
| "negated_chain (Some n) = n # negated_chain (negated n)"

text \<open>The atoms of the main chain of a conjunction, in \<open>next\<close> order.\<close>

definition main_atoms :: "qtree_or_node \<Rightarrow> qtree_and_node list" where
  "main_atoms query = next_chain (and_set query)"

text \<open>
  The negated atoms as the canonicalizer finds them: from each main atom's \<open>negated\<close>
  pointer, then along \<open>next\<close>.
\<close>

definition canonical_negated_atoms :: "qtree_or_node \<Rightarrow> qtree_and_node list" where
  "canonical_negated_atoms query =
     concat (map (\<lambda>n. next_chain (negated n)) (main_atoms query))"

text \<open>
  The negated atoms as phase 4 of \<open>tagsistant_RDS_build\<close> finds them: from each main
  atom's \<open>negated\<close> pointer, then along \<open>negated\<close>.
\<close>

definition builder_negated_atoms :: "qtree_or_node \<Rightarrow> qtree_and_node list" where
  "builder_negated_atoms query =
     concat (map (\<lambda>n. negated_chain (negated n)) (main_atoms query))"

text \<open>The rendering of one atom, and the fields of an atom that the rendering reads.\<close>

definition render_atom :: "qtree_and_node \<Rightarrow> string" where
  "render_atom node = tagsistant_RDS_subquery_add_tag '''' node False"

definition atom_fields ::
  "qtree_and_node \<Rightarrow> string option \<times> string option \<times> string option \<times> operator \<times> string option" where
  "atom_fields n = (tag n, namespace n, key n, operator n, tag_value n)"

definition operator_name :: "operator \<Rightarrow> string" where
  "operator_name op =
     (case op of
        TAGSISTANT_EQUAL_TO \<Rightarrow> ''eq''
      | TAGSISTANT_CONTAINS \<Rightarrow> ''inc''
      | TAGSISTANT_GREATER_THAN \<Rightarrow> ''gt''
      | TAGSISTANT_SMALLER_THAN \<Rightarrow> ''lt''
      | OTHER_OPERATOR \<Rightarrow> '''')"

section \<open>SqlFragmentBuilder: tagsistant_query_add_and_set\<close>

definition tagsistant_query_add_and_set :: "string \<Rightarrow> qtree_and_node \<Rightarrow> string" where
  "tagsistant_query_add_and_set statement a =
     (if tag_id a \<noteq> 0 then
        statement @ ''tagging.tag_id = '' @ show_int (tag_id a) @ '' ''
      else case tag a of
        Some t \<Rightarrow> statement @ ''tagname = '' @ sq @ t @ sq @ '' ''
      | None \<Rightarrow>
          (case tag_value a of
             None \<Rightarrow> statement
           | Some v \<Rightarrow>
               (case operator a of
                  TAGSISTANT_EQUAL_TO \<Rightarrow>
                    statement @ ''tagname = '' @ sq @ cstr (namespace a) @ sq
                      @ '' and `key` = '' @ sq @ cstr (key a) @ sq
                      @ '' and value = '' @ sq @ v @ sq @ '' ''
                | TAGSISTANT_CONTAINS \<Rightarrow>
                    statement @ ''tagname = '' @ sq @ cstr (namespace a) @ sq
                      @ '' and `key` = '' @ sq @ cstr (key a) @ sq
                      @ '' and value like '' @ sq @ ''%'' @ v @ ''%'' @ sq @ '' ''
                | TAGSISTANT_GREATER_THAN \<Rightarrow>
                    statement @ ''tagname = '' @ sq @ cstr (namespace a) @ sq
                      @ '' and `key` = '' @ sq @ cstr (key a) @ sq
                      @ '' and value > '' @ sq @ v @ sq @ '' ''
                | TAGSISTANT_SMALLER_THAN \<Rightarrow>
                    statement @ ''tagname = '' @ sq @ cstr (namespace a) @ sq
                      @ '' and `key` = '' @ sq @ cstr (key a) @ sq
                      @ '' and value < '' @ sq @ v @ sq @ '' ''
                | OTHER_OPERATOR \<Rightarrow> statement)))"

text \<open>
  The loop that appends each \<open>->related\<close> atom to a WHERE clause:
  \<^verbatim>\<open>while (related) { append " or "; add_and_set(related); related = related->related; }\<close>
\<close>

fun add_related_loop :: "string \<Rightarrow> qtree_and_node option \<Rightarrow> string" where
  "add_related_loop statement None = statement"
| "add_related_loop statement (Some rel) =
     add_related_loop (tagsistant_query_add_and_set (statement @ '' or '') rel) (related rel)"


section \<open>CatalogStore: the tables and the SQL executor\<close>

text \<open>
  The tables rds.c reads and writes. \<open>RDS_catalog\<close> and \<open>RDS\<close> are its own;
  \<open>objects\<close>, \<open>tagging\<close> and \<open>tags\<close> are read through the joins of phases 2 to 4,
  with the columns those statements name. The column \<open>created\<close> of the catalog is
  never read or written by rds.c and is left out.
\<close>

record catalog_row =
  c_rds_id :: int
  c_subquery :: string
  c_expired :: int

record rds_row =
  r_rds_id :: int
  r_inode :: nat
  r_objectname :: string

record object_row =
  o_inode :: nat
  o_objectname :: string

record tagging_row =
  tg_inode :: nat
  tg_tag_id :: int

record tag_row =
  t_tag_id :: int
  t_tagname :: string
  t_key :: "string option"
  t_value :: "string option"

text \<open>
  The database behind a \<open>dbi_conn\<close>: the five tables, the AUTOINCREMENT counter of
  \<open>RDS_catalog\<close>, the id of the connection's last insert, and the texts of the
  statements executed so far, in order.
\<close>

record database =
  RDS_catalog :: "catalog_row list"
  RDS :: "rds_row list"
  objects :: "object_row list"
  tagging :: "tagging_row list"
  tags :: "tag_row list"
  autoincrement :: int
  last_insert_id :: int
  statements :: "string list"

text \<open>
  Modelled from the spec: the SQL executor (\<open>tagsistant_query\<close>,
  \<open>tagsistant_return_integer\<close>, \<open>tagsistant_last_insert_id\<close> and the SQL engine
  behind them are not among the sources). A call records the statement text and applies
  the statement's effect to the tables. For the statements that rds.c passes as a format
  with its arguments (those of \<open>tagsistant_RDS_fetch_id\<close>, of phase 1 of the build and
  of \<open>tagsistant_RDS_invalidate\<close>) the effect is what the spec's CatalogStore says the
  statement does, the arguments compared as values, byte for byte. For the statements of
  phases 2 to 4, which rds.c assembles itself and passes whole, the effect is what the
  engine reads in the text (\<open>sql_execute\<close> below). What the executor's own formatting
  makes of a percent sign in the texts of phases 2 to 4 is outside this model. Row ids
  are taken to fit the C \<open>int\<close> that rds.c stores them in.
\<close>

definition tagsistant_query :: "string \<Rightarrow> (database \<Rightarrow> database) \<Rightarrow> database \<Rightarrow> database" where
  "tagsistant_query statement effect db = effect (db\<lparr>statements := statements db @ [statement]\<rparr>)"

text \<open>
  Modelled from the spec: \<open>delete from RDS where rds_id = (select rds_id from RDS_catalog
  where subquery = '...')\<close> deletes all RDS rows whose rds_id matches a catalog row with
  this subquery.
\<close>

definition sql_delete_rds_of_subquery :: "string \<Rightarrow> database \<Rightarrow> database" where
  "sql_delete_rds_of_subquery subquery db =
     db\<lparr>RDS := filter
        (\<lambda>r. r_rds_id r \<notin> set (map c_rds_id (filter (\<lambda>c. c_subquery c = subquery) (RDS_catalog db))))
        (RDS db)\<rparr>"

text \<open>Modelled from the spec: \<open>delete from RDS_catalog where subquery = '...'\<close>.\<close>

definition sql_delete_catalog_of_subquery :: "string \<Rightarrow> database \<Rightarrow> database" where
  "sql_delete_catalog_of_subquery subquery db =
     db\<lparr>RDS_catalog := filter (\<lambda>c. c_subquery c \<noteq> subquery) (RDS_catalog db)\<rparr>"

text \<open>
  Modelled from the spec: \<open>select rds_id from RDS_catalog where subquery = '...'\<close> with
  the callback \<open>tagsistant_return_integer\<close> on \<open>&rds_id\<close>, which starts at 0: the
  callback stores the rds_id of each result row in turn, so that no row leaves 0.
\<close>

definition sql_select_rds_id :: "string \<Rightarrow> database \<Rightarrow> int" where
  "sql_select_rds_id subquery db =
     foldl (\<lambda>rds_id c. c_rds_id c) 0 (filter (\<lambda>c. c_subquery c = subquery) (RDS_catalog db))"

text \<open>
  Modelled from the spec: \<open>insert into RDS_catalog (subquery) values ('...')\<close>. The new
  row takes the next AUTOINCREMENT id and the column default \<open>expired = 0\<close>.
\<close>

definition sql_insert_catalog :: "string \<Rightarrow> database \<Rightarrow> database" where
  "sql_insert_catalog subquery db =
     (let new_id = autoincrement db + 1 in
      db\<lparr>RDS_catalog := RDS_catalog db @ [\<lparr>c_rds_id = new_id, c_subquery = subquery, c_expired = 0\<rparr>],
         autoincrement := new_id,
         last_insert_id := new_id\<rparr>)"

text \<open>Modelled from the spec: \<open>last_insert_id()\<close>, the id of the connection's last insert.\<close>

definition tagsistant_last_insert_id :: "database \<Rightarrow> int" where
  "tagsistant_last_insert_id db = last_insert_id db"

section \<open>The SQL engine behind the executor\<close>

text \<open>
  Modelled from the spec: the SQL engine behind \<open>tagsistant_query\<close>, which is not among
  the sources, for the statements that \<open>tagsistant_RDS_build\<close> assembles itself in
  phases 2 to 4 and passes whole. The engine has nothing but the text: it splits the
  text into tokens, recognises the three statement forms of spec 4.5, reads the
  condition that follows \<open>where\<close>, and applies the statement to the tables. A text it
  cannot read is a statement that fails, and a statement that fails changes nothing.
\<close>

subsection \<open>Integers\<close>

text \<open>Modelled from the spec: how the engine reads a decimal integer.\<close>

definition digit_value :: "char \<Rightarrow> nat option" where
  "digit_value c = map_of (zip ''0123456789'' [0, 1, 2, 3, 4, 5, 6, 7, 8, 9]) c"

fun parse_digits :: "nat \<Rightarrow> string \<Rightarrow> nat option" where
  "parse_digits acc [] = Some acc"
| "parse_digits acc (c # cs) =
     (case digit_value c of
        None \<Rightarrow> None
      | Some d \<Rightarrow> parse_digits (acc * 10 + d) cs)"

definition parse_int :: "string \<Rightarrow> int option" where
  "parse_int s =
     (case s of
        [] \<Rightarrow> None
      | c # cs \<Rightarrow>
          (if c = CHR ''-'' then
             (if cs = [] then None else map_option (\<lambda>n. - int n) (parse_digits 0 cs))
           else map_option int (parse_digits 0 s)))"

subsection \<open>Tokens\<close>

text \<open>
  Modelled from the spec: the tokens of a statement text. A token is a word, a string
  literal, or one of the symbols \<open>( ) , = < >\<close>; blanks separate tokens. A string
  literal opens at a quote and closes at the next quote that is neither doubled nor
  escaped by a backslash: a doubled quote stands for one quote, a backslash for the
  character after it. \<open>sql_tokens False [] text\<close> is the list of the tokens of
  \<open>text\<close>, and \<open>None\<close> when a literal is left open. The first argument tells whether
  the reader is inside a literal, the second holds the characters of the word or
  literal read so far.
\<close>

datatype sql_token = Word string | Literal string | Symbol char

definition end_word :: "string \<Rightarrow> sql_token list \<Rightarrow> sql_token list" where
  "end_word cur ts = (if cur = [] then ts else Word cur # ts)"

fun sql_tokens :: "bool \<Rightarrow> string \<Rightarrow> string \<Rightarrow> sql_token list option" where
  "sql_tokens in_literal cur [] = (if in_literal then None else Some (end_word cur []))"
| "sql_tokens in_literal cur (c # cs) =
     (if in_literal then
        (if c = CHR 0x5C then
           (case cs of [] \<Rightarrow> None | d # ds \<Rightarrow> sql_tokens True (cur @ [d]) ds)
         else if c = CHR 0x27 then
           (case cs of
              [] \<Rightarrow> Some [Literal cur]
            | d # ds \<Rightarrow>
                (if d = CHR 0x27 then sql_tokens True (cur @ [c]) ds
                 else map_option ((#) (Literal cur)) (sql_tokens False [] cs)))
         else sql_tokens True (cur @ [c]) cs)
      else if c = CHR 0x27 then map_option (end_word cur) (sql_tokens True [] cs)
      else if c = CHR '' '' then map_option (end_word cur) (sql_tokens False [] cs)
      else if c \<in> set ''(),=<>'' then
        map_option (\<lambda>ts. end_word cur (Symbol c # ts)) (sql_tokens False [] cs)
      else sql_tokens False (cur @ [c]) cs)"

subsection \<open>Conditions\<close>

text \<open>
  The collation of the engine: what \<open>like\<close>, \<open>>\<close> and \<open><\<close> hold of a stored string
  and a literal. It is a parameter \<open>cmp\<close> of the model, indexed by the operator whose
  comparison it decides (\<open>TAGSISTANT_CONTAINS\<close> for \<open>like\<close>, with the pattern as its
  last argument). \<open>=\<close> is equality of the strings, byte for byte.
\<close>

type_synonym value_cmp = "operator \<Rightarrow> string \<Rightarrow> string \<Rightarrow> bool"

text \<open>
  Modelled from the spec: a condition is a disjunction (\<open>or\<close>) of conjunctions
  (\<open>and\<close>, which binds tighter) of comparisons. A comparison has two operands, each a
  column, a string literal or an integer, and one of \<open>=\<close>, \<open>like\<close>, \<open>>\<close>, \<open><\<close>
  between them. The columns are those of \<open>tagging\<close> and \<open>tags\<close> that rds.c names, as
  it writes them.
\<close>

datatype sql_operand = Column string | Text string | Number int

type_synonym sql_comparison = "sql_operand \<times> operator \<times> sql_operand"

type_synonym sql_condition = "sql_comparison list list"

definition sql_columns :: "string list" where
  "sql_columns = [''tagging.tag_id'', ''tagname'', ''`key`'', ''value'']"

fun read_operand :: "sql_token \<Rightarrow> sql_operand option" where
  "read_operand (Literal s) = Some (Text s)"
| "read_operand (Word w) =
     (case parse_int w of
        Some i \<Rightarrow> Some (Number i)
      | None \<Rightarrow> (if w \<in> set sql_columns then Some (Column w) else None))"
| "read_operand (Symbol c) = None"

fun read_comparator :: "sql_token \<Rightarrow> operator option" where
  "read_comparator (Symbol c) =
     (if c = CHR ''='' then Some TAGSISTANT_EQUAL_TO
      else if c = CHR ''>'' then Some TAGSISTANT_GREATER_THAN
      else if c = CHR ''<'' then Some TAGSISTANT_SMALLER_THAN
      else None)"
| "read_comparator (Word w) = (if w = ''like'' then Some TAGSISTANT_CONTAINS else None)"
| "read_comparator (Literal s) = None"

definition read_comparison :: "sql_token \<Rightarrow> sql_token \<Rightarrow> sql_token \<Rightarrow> sql_comparison option" where
  "read_comparison l c r =
     (case (read_operand l, read_comparator c, read_operand r) of
        (Some a, Some op, Some b) \<Rightarrow> Some (a, op, b)
      | _ \<Rightarrow> None)"

fun parse_condition :: "sql_token list \<Rightarrow> sql_condition option" where
  "parse_condition (l # c # r # rest) =
     (case read_comparison l c r of
        None \<Rightarrow> None
      | Some cmp1 \<Rightarrow>
          (case rest of
             [] \<Rightarrow> Some [[cmp1]]
           | Word w # others \<Rightarrow>
               (if w = ''and'' then
                  (case parse_condition others of
                     Some (cmps # alternatives) \<Rightarrow> Some ((cmp1 # cmps) # alternatives)
                   | _ \<Rightarrow> None)
                else if w = ''or'' then map_option ((#) [cmp1]) (parse_condition others)
                else None)
           | _ \<Rightarrow> None))"
| "parse_condition _ = None"

text \<open>
  Modelled from the spec: the value of an operand on a row of \<open>tagging\<close> joined with
  \<open>tags\<close>, and the truth of a comparison. A comparison with NULL, or of an integer with
  a string, does not hold.
\<close>

datatype sql_value = SQL_Null | SQL_Integer int | SQL_String string

definition column_value :: "string \<Rightarrow> tagging_row \<times> tag_row \<Rightarrow> sql_value" where
  "column_value c row =
     (if c = ''tagging.tag_id'' then SQL_Integer (tg_tag_id (fst row))
      else if c = ''tagname'' then SQL_String (t_tagname (snd row))
      else if c = ''`key`'' then (case t_key (snd row) of None \<Rightarrow> SQL_Null | Some k \<Rightarrow> SQL_String k)
      else if c = ''value'' then (case t_value (snd row) of None \<Rightarrow> SQL_Null | Some v \<Rightarrow> SQL_String v)
      else SQL_Null)"

fun operand_value :: "sql_operand \<Rightarrow> tagging_row \<times> tag_row \<Rightarrow> sql_value" where
  "operand_value (Column c) row = column_value c row"
| "operand_value (Text s) row = SQL_String s"
| "operand_value (Number i) row = SQL_Integer i"

fun compare_values :: "value_cmp \<Rightarrow> operator \<Rightarrow> sql_value \<Rightarrow> sql_value \<Rightarrow> bool" where
  "compare_values cmp op (SQL_String a) (SQL_String b) =
     (if op = TAGSISTANT_EQUAL_TO then a = b else cmp op a b)"
| "compare_values cmp op (SQL_Integer a) (SQL_Integer b) =
     (if op = TAGSISTANT_EQUAL_TO then a = b
      else if op = TAGSISTANT_GREATER_THAN then b < a
      else if op = TAGSISTANT_SMALLER_THAN then a < b
      else False)"
| "compare_values cmp op a b = False"

definition eval_comparison :: "value_cmp \<Rightarrow> sql_comparison \<Rightarrow> tagging_row \<times> tag_row \<Rightarrow> bool" where
  "eval_comparison cmp c row =
     (case c of (l, op, r) \<Rightarrow> compare_values cmp op (operand_value l row) (operand_value r row))"

definition eval_condition :: "value_cmp \<Rightarrow> sql_condition \<Rightarrow> tagging_row \<times> tag_row \<Rightarrow> bool" where
  "eval_condition cmp cond row = list_ex (list_all (\<lambda>c. eval_comparison cmp c row)) cond"

subsection \<open>Statements\<close>

text \<open>
  \<open>objects join tagging on tagging.inode = objects.inode join tags on tags.tag_id =
  tagging.tag_id\<close>, and the objects of the joined rows on which a condition holds.
\<close>

definition joined :: "database \<Rightarrow> (object_row \<times> tagging_row \<times> tag_row) list" where
  "joined db =
     concat (map (\<lambda>ob.
       concat (map (\<lambda>tg.
         map (\<lambda>t. (ob, tg, t)) (filter (\<lambda>t. t_tag_id t = tg_tag_id tg) (tags db)))
         (filter (\<lambda>tg. tg_inode tg = o_inode ob) (tagging db))))
       (objects db))"

definition selected_objects ::
  "(tagging_row \<times> tag_row \<Rightarrow> bool) \<Rightarrow> database \<Rightarrow> object_row list" where
  "selected_objects p db = map fst (filter (\<lambda>(ob, tg, t). p (tg, t)) (joined db))"

text \<open>
  Modelled from the spec: the three statement forms of the RdsBuilder (spec 4.5).
  \<open>Insert_Select i c\<close> is \<open>insert into RDS select i, objects.inode, objects.objectname
  from\<close> the join \<open>where c\<close>; \<open>Delete_Where is_not i c\<close> is \<open>delete from RDS where rds_id
  = i and inode in (select objects.inode from\<close> the join \<open>where c)\<close>, with \<open>not in\<close>
  when \<open>is_not\<close> is set.
\<close>

datatype sql_statement =
    Insert_Select int sql_condition
  | Delete_Where bool int sql_condition

fun strip_prefix :: "'a list \<Rightarrow> 'a list \<Rightarrow> 'a list option" where
  "strip_prefix [] ys = Some ys"
| "strip_prefix (x # xs) [] = None"
| "strip_prefix (x # xs) (y # ys) = (if x = y then strip_prefix xs ys else None)"

definition join_tokens :: "sql_token list" where
  "join_tokens =
     [Word ''from'', Word ''objects'',
      Word ''join'', Word ''tagging'', Word ''on'', Word ''tagging.inode'', Symbol CHR ''='',
      Word ''objects.inode'',
      Word ''join'', Word ''tags'', Word ''on'', Word ''tags.tag_id'', Symbol CHR ''='',
      Word ''tagging.tag_id'',
      Word ''where'']"

definition parse_insert :: "sql_token list \<Rightarrow> sql_statement option" where
  "parse_insert ts =
     (case strip_prefix [Word ''insert'', Word ''into'', Word ''RDS'', Word ''select''] ts of
        Some (Word n # rest) \<Rightarrow>
          (case parse_int n of
             None \<Rightarrow> None
           | Some i \<Rightarrow>
               (case strip_prefix
                       ([Symbol CHR '','', Word ''objects.inode'', Symbol CHR '','',
                         Word ''objects.objectname''] @ join_tokens) rest of
                  None \<Rightarrow> None
                | Some cond \<Rightarrow> map_option (Insert_Select i) (parse_condition cond)))
      | _ \<Rightarrow> None)"

definition parse_delete :: "sql_token list \<Rightarrow> sql_statement option" where
  "parse_delete ts =
     (case strip_prefix
             [Word ''delete'', Word ''from'', Word ''RDS'', Word ''where'', Word ''rds_id'',
              Symbol CHR ''=''] ts of
        Some (Word n # Word a # Word col # rest) \<Rightarrow>
          (case parse_int n of
             None \<Rightarrow> None
           | Some i \<Rightarrow>
               (if a = ''and'' \<and> col = ''inode'' then
                  (let is_not = (case rest of Word w # others \<Rightarrow> w = ''not'' | _ \<Rightarrow> False) in
                   case strip_prefix
                          ([Word ''in'', Symbol CHR ''('', Word ''select'', Word ''objects.inode'']
                             @ join_tokens)
                          (if is_not then tl rest else rest) of
                     None \<Rightarrow> None
                   | Some body \<Rightarrow>
                       (if body \<noteq> [] \<and> last body = Symbol CHR '')''
                        then map_option (Delete_Where is_not i) (parse_condition (butlast body))
                        else None))
                else None))
      | _ \<Rightarrow> None)"

definition parse_statement :: "sql_token list \<Rightarrow> sql_statement option" where
  "parse_statement ts =
     (case parse_insert ts of
        Some st \<Rightarrow> Some st
      | None \<Rightarrow> parse_delete ts)"

text \<open>
  Modelled from the spec: what a statement does (spec 4.5). The insert adds one row for
  each joined row on which the condition holds; the delete removes the rows of the RDS
  \<open>i\<close> whose inode is, or with \<open>not in\<close> is not, among the inodes selected.
\<close>

fun run_statement :: "value_cmp \<Rightarrow> sql_statement \<Rightarrow> database \<Rightarrow> database" where
  "run_statement cmp (Insert_Select i cond) db =
     db\<lparr>RDS := RDS db @
        map (\<lambda>ob. \<lparr>r_rds_id = i, r_inode = o_inode ob, r_objectname = o_objectname ob\<rparr>)
            (selected_objects (eval_condition cmp cond) db)\<rparr>"
| "run_statement cmp (Delete_Where is_not i cond) db =
     db\<lparr>RDS := filter
        (\<lambda>r. \<not> (r_rds_id r = i
                 \<and> (r_inode r \<in> set (map o_inode (selected_objects (eval_condition cmp cond) db)))
                     \<noteq> is_not))
        (RDS db)\<rparr>"

definition sql_execute :: "value_cmp \<Rightarrow> string \<Rightarrow> database \<Rightarrow> database" where
  "sql_execute cmp statement db =
     (case sql_tokens False [] statement of
        None \<Rightarrow> db
      | Some ts \<Rightarrow>
          (case parse_statement ts of
             None \<Rightarrow> db
           | Some st \<Rightarrow> run_statement cmp st db))"


section \<open>tagsistant_RDS_fetch_id\<close>

definition tagsistant_RDS_fetch_id :: "string \<Rightarrow> bool \<Rightarrow> database \<Rightarrow> int \<times> database" where
  "tagsistant_RDS_fetch_id subquery rebuild_expired_RDS db =
     (let db1 =
        (if rebuild_expired_RDS then
           tagsistant_query
             (''delete from RDS_catalog where subquery = '' @ sq @ subquery @ sq)
             (sql_delete_catalog_of_subquery subquery)
             (tagsistant_query
                (''delete from RDS where rds_id = (select rds_id from RDS_catalog where subquery = ''
                   @ sq @ subquery @ sq @ '')'')
                (sql_delete_rds_of_subquery subquery)
                db)
         else db);
        rds_id = sql_select_rds_id subquery db1;
        db2 = tagsistant_query
                (''select rds_id from RDS_catalog where subquery = '' @ sq @ subquery @ sq)
                (\<lambda>d. d)
                db1
      in (rds_id, db2))"


section \<open>RdsBuilder: tagsistant_RDS_build\<close>

definition join_where :: string where
  "join_where =
     ''from objects join tagging on tagging.inode = objects.inode join tags on tags.tag_id = tagging.tag_id where ''"

definition phase_2_text :: "int \<Rightarrow> qtree_and_node \<Rightarrow> string" where
  "phase_2_text rds_id head =
     add_related_loop
       (tagsistant_query_add_and_set
          (''insert into RDS select '' @ show_int rds_id @ '', objects.inode, objects.objectname ''
             @ join_where)
          head)
       (related head)"

definition phase_3_text :: "int \<Rightarrow> qtree_and_node \<Rightarrow> string" where
  "phase_3_text rds_id nxt =
     add_related_loop
       (tagsistant_query_add_and_set
          (''delete from RDS where rds_id = '' @ show_int rds_id
             @ '' and inode not in (select objects.inode '' @ join_where)
          nxt)
       (related nxt)
     @ '')''"

definition phase_4_text :: "int \<Rightarrow> qtree_and_node \<Rightarrow> string" where
  "phase_4_text rds_id neg =
     add_related_loop
       (tagsistant_query_add_and_set
          (''delete from RDS where rds_id = '' @ show_int rds_id
             @ '' and inode in (select objects.inode '' @ join_where)
          neg)
       (related neg)
     @ '')''"


text \<open>
  Phases 2 to 4 pass the assembled text to \<open>tagsistant_query\<close> with no argument; the
  engine executes what the text says.
\<close>

text \<open>Phase 3: \<open>next = query->and_set->next; while (next) { ...; next = next->next; }\<close>\<close>

fun phase_3_loop :: "value_cmp \<Rightarrow> int \<Rightarrow> qtree_and_node option \<Rightarrow> database \<Rightarrow> database" where
  "phase_3_loop cmp rds_id None db = db"
| "phase_3_loop cmp rds_id (Some nxt) db =
     phase_3_loop cmp rds_id (next_and nxt)
       (tagsistant_query (phase_3_text rds_id nxt) (sql_execute cmp (phase_3_text rds_id nxt)) db)"

text \<open>
  Phase 4, inner loop: \<open>negated = next->negated; while (negated) { ...; negated =
  negated->negated; }\<close>
\<close>

fun phase_4_negated_loop :: "value_cmp \<Rightarrow> int \<Rightarrow> qtree_and_node option \<Rightarrow> database \<Rightarrow> database" where
  "phase_4_negated_loop cmp rds_id None db = db"
| "phase_4_negated_loop cmp rds_id (Some neg) db =
     phase_4_negated_loop cmp rds_id (negated neg)
       (tagsistant_query (phase_4_text rds_id neg) (sql_execute cmp (phase_4_text rds_id neg)) db)"

text \<open>Phase 4, outer loop: \<open>next = query->and_set; while (next) { ...; next = next->next; }\<close>\<close>

fun phase_4_loop :: "value_cmp \<Rightarrow> int \<Rightarrow> qtree_and_node option \<Rightarrow> database \<Rightarrow> database" where
  "phase_4_loop cmp rds_id None db = db"
| "phase_4_loop cmp rds_id (Some nxt) db =
     phase_4_loop cmp rds_id (next_and nxt) (phase_4_negated_loop cmp rds_id (negated nxt) db)"

definition tagsistant_RDS_build ::
  "value_cmp \<Rightarrow> qtree_or_node \<Rightarrow> string \<Rightarrow> database \<Rightarrow> int \<times> database" where
  "tagsistant_RDS_build cmp query subquery db =
     (let db1 = tagsistant_query
                  (''insert into RDS_catalog (subquery) values ('' @ sq @ subquery @ sq @ '')'')
                  (sql_insert_catalog subquery)
                  db;
          rds_id = tagsistant_last_insert_id db1
      in case and_set query of
           None \<Rightarrow> (rds_id, db1)
         | Some head \<Rightarrow>
             (let db2 = tagsistant_query (phase_2_text rds_id head)
                          (sql_execute cmp (phase_2_text rds_id head)) db1;
                  db3 = phase_3_loop cmp rds_id (next_and head) db2;
                  db4 = phase_4_loop cmp rds_id (Some head) db3
              in (rds_id, db4)))"

section \<open>RdsCoordinator: tagsistant_RDS_prepare\<close>

text \<open>
  The body of the \<open>while (query)\<close> loop between \<open>g_mutex_lock\<close> and
  \<open>g_mutex_unlock\<close>: fetch the id of the subquery and build the RDS when it is 0.
\<close>

definition fetch_or_build ::
  "value_cmp \<Rightarrow> bool \<Rightarrow> qtree_or_node \<Rightarrow> database \<Rightarrow> int \<times> database" where
  "fetch_or_build cmp rebuild_expired_RDS query db =
     (let subquery = tagsistant_RDS_build_subquery query;
          (rds_id, db1) = tagsistant_RDS_fetch_id subquery rebuild_expired_RDS db
      in if rds_id = 0 then tagsistant_RDS_build cmp query subquery db1 else (rds_id, db1))"

fun prepare_loop ::
  "value_cmp \<Rightarrow> bool \<Rightarrow> string \<Rightarrow> qtree_or_node option \<Rightarrow> database \<Rightarrow> string \<times> database" where
  "prepare_loop cmp rebuild_expired_RDS RDS_ids None db = (RDS_ids, db)"
| "prepare_loop cmp rebuild_expired_RDS RDS_ids (Some query) db =
     (case fetch_or_build cmp rebuild_expired_RDS query db of
        (rds_id, db') \<Rightarrow>
          prepare_loop cmp rebuild_expired_RDS (RDS_ids @ '', '' @ show_int rds_id) (next_or query) db')"

definition tagsistant_RDS_prepare ::
  "value_cmp \<Rightarrow> qtree_or_node option \<Rightarrow> bool \<Rightarrow> bool \<Rightarrow> database \<Rightarrow> string option \<times> database" where
  "tagsistant_RDS_prepare cmp query is_all_path rebuild_expired_RDS db =
     (if is_all_path then (None, db)
      else case query of
        None \<Rightarrow> (None, db)
      | Some q \<Rightarrow>
          (case prepare_loop cmp rebuild_expired_RDS [] (Some q) db of
             (RDS_ids, db') \<Rightarrow> (Some (drop 2 RDS_ids), db')))"

section \<open>Invalidator: tagsistant_RDS_invalidate\<close>

text \<open>
  Modelled from the spec: how the engine reads the list of \<open>rds_id in (...)\<close>, items
  separated by commas, each a decimal integer with blanks around it allowed. \<open>None\<close>
  when the text is not such a list.
\<close>

fun split_commas :: "string \<Rightarrow> string list" where
  "split_commas [] = [[]]"
| "split_commas (c # cs) =
     (if c = CHR '','' then [] # split_commas cs
      else (case split_commas cs of
              [] \<Rightarrow> [[c]]
            | x # xs \<Rightarrow> (c # x) # xs))"

definition trim_blanks :: "string \<Rightarrow> string" where
  "trim_blanks s = rev (dropWhile (\<lambda>c. c = CHR '' '') (rev (dropWhile (\<lambda>c. c = CHR '' '') s)))"

definition sql_int_list :: "string \<Rightarrow> int list option" where
  "sql_int_list s = those (map (\<lambda>item. parse_int (trim_blanks item)) (split_commas s))"

text \<open>
  Modelled from the spec: \<open>update RDS_catalog set expired = 1 where rds_id in (...)\<close>
  sets the flag of each catalog row whose rds_id is in the list and changes nothing
  else; a text that is not a list of integers matches no row.
\<close>

definition sql_update_expired :: "string \<Rightarrow> database \<Rightarrow> database" where
  "sql_update_expired id_list db =
     (case sql_int_list id_list of
        None \<Rightarrow> db
      | Some ids \<Rightarrow>
          db\<lparr>RDS_catalog :=
               map (\<lambda>c. if c_rds_id c \<in> set ids then c\<lparr>c_expired := 1\<rparr> else c) (RDS_catalog db)\<rparr>)"

text \<open>
  \<open>tagsistant_RDS_invalidate\<close> reads two fields of its \<open>tagsistant_querytree\<close>: the
  connection \<open>dbi\<close> and \<open>RDS_fingerprint\<close>, NULL when no fingerprint was prepared.
\<close>

definition tagsistant_RDS_invalidate :: "string option \<Rightarrow> database \<Rightarrow> database" where
  "tagsistant_RDS_invalidate RDS_fingerprint db =
     tagsistant_query
       (''update RDS_catalog set expired = 1 where rds_id in ('' @ cstr RDS_fingerprint @ '')'')
       (sql_update_expired (cstr RDS_fingerprint))
       db"


section \<open>The escaping contract of the fragment builder\<close>

text \<open>
  The string literals the engine reads in a statement text, in order; \<open>None\<close> when a
  literal is left open.
\<close>

fun token_literal :: "sql_token \<Rightarrow> string list" where
  "token_literal (Literal s) = [s]"
| "token_literal (Word w) = []"
| "token_literal (Symbol c) = []"

definition sql_literals :: "string \<Rightarrow> string list option" where
  "sql_literals statement =
     map_option (\<lambda>ts. concat (map token_literal ts)) (sql_tokens False [] statement)"

text \<open>
  The literals the builder means a fragment to hold (spec 4.3): none for an id, the tag
  for a named tag, and namespace, key and value for a triple, the value between
  \<open>%\<close> signs for CONTAINS.
\<close>

definition interpolated_literals :: "qtree_and_node \<Rightarrow> string list" where
  "interpolated_literals a =
     (if tag_id a \<noteq> 0 then []
      else case tag a of
        Some t \<Rightarrow> [t]
      | None \<Rightarrow>
          (case tag_value a of
             None \<Rightarrow> []
           | Some v \<Rightarrow>
               (if operator a = OTHER_OPERATOR then []
                else if operator a = TAGSISTANT_CONTAINS
                  then [cstr (namespace a), cstr (key a), ''%'' @ v @ ''%'']
                else [cstr (namespace a), cstr (key a), v])))"

text \<open>
  The contract: the engine reads from the fragment exactly the literals the builder
  interpolated, so that no interpolated quote closes a literal early.
\<close>

definition fragment_literals_intact :: "qtree_and_node \<Rightarrow> bool" where
  "fragment_literals_intact a =
     (sql_literals (tagsistant_query_add_and_set [] a) = Some (interpolated_literals a))"

text \<open>A string with no quote and no backslash, and an atom whose four strings are such.\<close>

definition sql_safe :: "string \<Rightarrow> bool" where
  "sql_safe s = (CHR 0x27 \<notin> set s \<and> CHR 0x5C \<notin> set s)"

definition atom_strings_safe :: "qtree_and_node \<Rightarrow> bool" where
  "atom_strings_safe a =
     (sql_safe (cstr (tag a)) \<and> sql_safe (cstr (namespace a))
      \<and> sql_safe (cstr (key a)) \<and> sql_safe (cstr (tag_value a)))"

section \<open>Fingerprints\<close>

text \<open>The conjunctions of a disjunction, in link order, and their subqueries.\<close>

fun or_chain :: "qtree_or_node option \<Rightarrow> qtree_or_node list" where
  "or_chain None = []"
| "or_chain (Some q) = q # or_chain (next_or q)"

definition subqueries :: "qtree_or_node option \<Rightarrow> string list" where
  "subqueries query = map tagsistant_RDS_build_subquery (or_chain query)"

text \<open>
  The run of the \<open>while (query)\<close> loop of \<open>tagsistant_RDS_prepare\<close> with the ids kept as
  a list instead of being printed: the id of each conjunction in link order, and the
  database the loop leaves.
\<close>

fun prepare_run ::
  "value_cmp \<Rightarrow> bool \<Rightarrow> qtree_or_node option \<Rightarrow> database \<Rightarrow> int list \<times> database" where
  "prepare_run cmp rebuild_expired_RDS None db = ([], db)"
| "prepare_run cmp rebuild_expired_RDS (Some query) db =
     (case fetch_or_build cmp rebuild_expired_RDS query db of
        (rds_id, db1) \<Rightarrow>
          (case prepare_run cmp rebuild_expired_RDS (next_or query) db1 of
             (ids, db2) \<Rightarrow> (rds_id # ids, db2)))"

text \<open>
  The ids a fingerprint names: the list the engine reads from it in
  \<open>rds_id in (fingerprint)\<close>, empty when the text is not a list of integers.
\<close>

definition fingerprint_ids :: "string \<Rightarrow> int list" where
  "fingerprint_ids fingerprint =
     (case sql_int_list fingerprint of None \<Rightarrow> [] | Some ids \<Rightarrow> ids)"

text \<open>Strings joined by a separator.\<close>

fun join_with :: "string \<Rightarrow> string list \<Rightarrow> string" where
  "join_with sep [] = []"
| "join_with sep [x] = x"
| "join_with sep (x # y # ys) = x @ sep @ join_with sep (y # ys)"

text \<open>
  The fingerprint grammar of the spec: \<open>fingerprint := id ("," id)*\<close>, an id being a
  decimal numeral with no padding.
\<close>

definition is_decimal_id :: "string \<Rightarrow> bool" where
  "is_decimal_id s =
     (s = ''0'' \<or> (s \<noteq> [] \<and> hd s \<in> set ''123456789'' \<and> list_all (\<lambda>c. c \<in> set ''0123456789'') s))"

definition fingerprint_grammar :: "string \<Rightarrow> bool" where
  "fingerprint_grammar s = list_all is_decimal_id (split_commas s)"

section \<open>Catalog states and calls\<close>

text \<open>
  A catalog as AUTOINCREMENT and the primary key make it: the ids of its rows are
  positive, pairwise distinct, and none exceeds the counter.
\<close>

definition catalog_wf :: "database \<Rightarrow> bool" where
  "catalog_wf db =
     (0 \<le> autoincrement db
      \<and> list_all (\<lambda>c. 0 < c_rds_id c \<and> c_rds_id c \<le> autoincrement db) (RDS_catalog db)
      \<and> distinct (map c_rds_id (RDS_catalog db)))"

text \<open>The text of the lookup statement of \<open>tagsistant_RDS_fetch_id\<close> for a subquery.\<close>

definition select_statement :: "string \<Rightarrow> string" where
  "select_statement subquery =
     ''select rds_id from RDS_catalog where subquery = '' @ sq @ subquery @ sq"

text \<open>
  The calls of the RDS interface that write: \<open>tagsistant_RDS_prepare\<close> and
  \<open>tagsistant_RDS_invalidate\<close> (\<open>load\<close> and \<open>contains_object\<close> only select). A
  history is a list of calls, run in order.
\<close>

datatype rds_call =
    Prepare value_cmp "qtree_or_node option" bool bool
  | Invalidate "string option"

fun run_call :: "rds_call \<Rightarrow> database \<Rightarrow> database" where
  "run_call (Prepare cmp query is_all_path rebuild_expired_RDS) db =
     snd (tagsistant_RDS_prepare cmp query is_all_path rebuild_expired_RDS db)"
| "run_call (Invalidate RDS_fingerprint) db = tagsistant_RDS_invalidate RDS_fingerprint db"

text \<open>The calls that request a rebuild: a prepare with \<open>rebuild_expired_RDS\<close> set.\<close>

fun call_rebuilds :: "rds_call \<Rightarrow> bool" where
  "call_rebuilds (Prepare cmp query is_all_path rebuild_expired_RDS) =
     (rebuild_expired_RDS \<and> \<not> is_all_path)"
| "call_rebuilds (Invalidate RDS_fingerprint) = False"

fun run_calls :: "rds_call list \<Rightarrow> database \<Rightarrow> database" where
  "run_calls [] db = db"
| "run_calls (call # calls) db = run_calls calls (run_call call db)"

text \<open>
  Modelled from the spec: what it is for a row of \<open>tagging\<close> joined with \<open>tags\<close> to
  carry an atom, read from the data model (spec 3, TagAtom) and not from any SQL text.
  An atom with an id is carried by the rows of that tag id; a named tag by the rows of a
  tag of that name; a triple by the rows of a tag of its namespace and key whose value
  compares with the atom's value as the operator says, for CONTAINS against the value
  wrapped in \<open>%\<close> signs (spec 4.3). A node of none of the three kinds is carried by
  no row. The theorems on the builder compare this reading with what the engine reads
  in the statements that rds.c assembles.
\<close>

definition value_matches :: "value_cmp \<Rightarrow> operator \<Rightarrow> string option \<Rightarrow> string \<Rightarrow> bool" where
  "value_matches cmp op stored v =
     (case stored of
        None \<Rightarrow> False
      | Some w \<Rightarrow>
          (if op = TAGSISTANT_EQUAL_TO then w = v
           else if op = TAGSISTANT_CONTAINS then cmp op w (''%'' @ v @ ''%'')
           else cmp op w v))"

definition spec_atom_matches :: "value_cmp \<Rightarrow> qtree_and_node \<Rightarrow> tagging_row \<times> tag_row \<Rightarrow> bool" where
  "spec_atom_matches cmp a row =
     (if tag_id a \<noteq> 0 then tg_tag_id (fst row) = tag_id a
      else case tag a of
        Some name \<Rightarrow> t_tagname (snd row) = name
      | None \<Rightarrow>
          (case tag_value a of
             None \<Rightarrow> False
           | Some v \<Rightarrow>
               operator a \<noteq> OTHER_OPERATOR
               \<and> t_tagname (snd row) = cstr (namespace a)
               \<and> t_key (snd row) = Some (cstr (key a))
               \<and> value_matches cmp (operator a) (t_value (snd row)) v))"

text \<open>
  Modelled from the spec: the inodes tagged by an atom (spec 8, property 5), those of
  the objects that the join of \<open>objects\<close>, \<open>tagging\<close> and \<open>tags\<close> links to a row
  carrying the atom.
\<close>

definition spec_tagged_inodes :: "value_cmp \<Rightarrow> database \<Rightarrow> qtree_and_node \<Rightarrow> nat list" where
  "spec_tagged_inodes cmp db a = map o_inode (selected_objects (spec_atom_matches cmp a) db)"

text \<open>
  An atom of one of the three kinds of the data model: an id, a named tag, or a triple
  with a value and one of the four operators.
\<close>

definition atom_well_formed :: "qtree_and_node \<Rightarrow> bool" where
  "atom_well_formed a =
     (tag_id a \<noteq> 0 \<or> tag a \<noteq> None \<or> (tag_value a \<noteq> None \<and> operator a \<noteq> OTHER_OPERATOR))"

text \<open>
  A step that only deletes rows of \<open>RDS\<close>: the catalog, its counter and the tag tables
  stay as they are, and every row of \<open>RDS\<close> afterwards was there before.
\<close>

definition only_deletes_rds :: "database \<Rightarrow> database \<Rightarrow> bool" where
  "only_deletes_rds db db' =
     (RDS_catalog db' = RDS_catalog db \<and> autoincrement db' = autoincrement db
      \<and> objects db' = objects db \<and> tagging db' = tagging db \<and> tags db' = tags db
      \<and> set (RDS db') \<subseteq> set (RDS db))"

text \<open>
  How the catalog may differ between two moments of a history: the counter has not gone
  back, and every entry of the later catalog either has an id above the earlier counter
  (it was inserted since) or carries the id of an earlier entry, with that entry's flag
  or with the flag 1.
\<close>

definition catalog_evolves :: "database \<Rightarrow> database \<Rightarrow> bool" where
  "catalog_evolves db db' =
     (autoincrement db \<le> autoincrement db'
      \<and> (\<forall>c' \<in> set (RDS_catalog db').
            autoincrement db < c_rds_id c'
            \<or> (\<exists>c \<in> set (RDS_catalog db).
                  c_rds_id c' = c_rds_id c \<and> (c_expired c' = c_expired c \<or> c_expired c' = 1))))"

section \<open>The statements as the builder means them\<close>

text \<open>
  The text of the condition that phases 2 to 4 build for a node: the node's own fragment
  and, each after \<open>or\<close>, those of its \<open>->related\<close> chain.
\<close>

definition condition_text :: "qtree_and_node \<Rightarrow> string" where
  "condition_text n = add_related_loop (tagsistant_query_add_and_set [] n) (related n)"

text \<open>
  The comparisons that the fragment of an atom is meant to be (spec 4.3): one for an id
  or a named tag, three for a triple, none where the builder appends nothing. The
  theorems show when the engine reads exactly these in the text of the fragment.
\<close>

definition fragment_comparisons :: "qtree_and_node \<Rightarrow> sql_comparison list" where
  "fragment_comparisons a =
     (if tag_id a \<noteq> 0 then
        [(Column ''tagging.tag_id'', TAGSISTANT_EQUAL_TO, Number (tag_id a))]
      else case tag a of
        Some t \<Rightarrow> [(Column ''tagname'', TAGSISTANT_EQUAL_TO, Text t)]
      | None \<Rightarrow>
          (case tag_value a of
             None \<Rightarrow> []
           | Some v \<Rightarrow>
               (if operator a = OTHER_OPERATOR then []
                else [(Column ''tagname'', TAGSISTANT_EQUAL_TO, Text (cstr (namespace a))),
                      (Column ''`key`'', TAGSISTANT_EQUAL_TO, Text (cstr (key a))),
                      (Column ''value'', operator a,
                       Text (if operator a = TAGSISTANT_CONTAINS then ''%'' @ v @ ''%'' else v))])))"

text \<open>The condition meant for a node: the comparisons of each atom of its related chain.\<close>

definition node_condition :: "qtree_and_node \<Rightarrow> sql_condition" where
  "node_condition n = map fragment_comparisons (related_chain (Some n))"

text \<open>The tokens that spell an operand, a comparison, a conjunction and a condition.\<close>

fun operand_token :: "sql_operand \<Rightarrow> sql_token" where
  "operand_token (Column c) = Word c"
| "operand_token (Text s) = Literal s"
| "operand_token (Number i) = Word (show_int i)"

definition comparator_token :: "operator \<Rightarrow> sql_token" where
  "comparator_token op =
     (case op of
        TAGSISTANT_EQUAL_TO \<Rightarrow> Symbol CHR ''=''
      | TAGSISTANT_CONTAINS \<Rightarrow> Word ''like''
      | TAGSISTANT_GREATER_THAN \<Rightarrow> Symbol CHR ''>''
      | TAGSISTANT_SMALLER_THAN \<Rightarrow> Symbol CHR ''<''
      | OTHER_OPERATOR \<Rightarrow> Word [])"

definition comparison_tokens :: "sql_comparison \<Rightarrow> sql_token list" where
  "comparison_tokens c =
     (case c of (l, op, r) \<Rightarrow> [operand_token l, comparator_token op, operand_token r])"

fun conjunction_tokens :: "sql_comparison list \<Rightarrow> sql_token list" where
  "conjunction_tokens [] = []"
| "conjunction_tokens [c] = comparison_tokens c"
| "conjunction_tokens (c # d # cs) = comparison_tokens c @ Word ''and'' # conjunction_tokens (d # cs)"

fun condition_tokens :: "sql_condition \<Rightarrow> sql_token list" where
  "condition_tokens [] = []"
| "condition_tokens [c] = conjunction_tokens c"
| "condition_tokens (c # d # cs) = conjunction_tokens c @ Word ''or'' # condition_tokens (d # cs)"

text \<open>A comparison that the engine reads back from its tokens.\<close>

definition comparison_readable :: "sql_comparison \<Rightarrow> bool" where
  "comparison_readable c =
     (case c of (l, op, r) \<Rightarrow>
        op \<noteq> OTHER_OPERATOR
        \<and> list_all (\<lambda>x. case x of Column n \<Rightarrow> n \<in> set sql_columns | _ \<Rightarrow> True) [l, r])"

text \<open>The tokens before the condition in the statements of phase 2 and of phases 3 and 4.\<close>

definition insert_tokens :: "int \<Rightarrow> sql_token list" where
  "insert_tokens i =
     [Word ''insert'', Word ''into'', Word ''RDS'', Word ''select'', Word (show_int i),
      Symbol CHR '','', Word ''objects.inode'', Symbol CHR '','', Word ''objects.objectname'']
     @ join_tokens"

definition delete_tokens :: "bool \<Rightarrow> int \<Rightarrow> sql_token list" where
  "delete_tokens is_not i =
     [Word ''delete'', Word ''from'', Word ''RDS'', Word ''where'', Word ''rds_id'',
      Symbol CHR ''='', Word (show_int i), Word ''and'', Word ''inode'']
     @ (if is_not then [Word ''not''] else [])
     @ [Word ''in'', Symbol CHR ''('', Word ''select'', Word ''objects.inode'']
     @ join_tokens"

text \<open>The characters of a word: any but the quote, the blank and the symbols.\<close>

definition word_char :: "char \<Rightarrow> bool" where
  "word_char c = (c \<noteq> CHR 0x27 \<and> c \<noteq> CHR '' '' \<and> c \<notin> set ''(),=<>'')"


section \<open>Example queries\<close>

text \<open>Atoms as the parser delivers them: a named tag, and a triple.\<close>

definition named_atom ::
  "string \<Rightarrow> qtree_and_node option \<Rightarrow> qtree_and_node option \<Rightarrow> qtree_and_node option \<Rightarrow> qtree_and_node" where
  "named_atom name rel neg nxt = And_Node 0 (Some name) None None OTHER_OPERATOR None rel neg nxt"

definition triple_atom ::
  "string \<Rightarrow> string \<Rightarrow> operator \<Rightarrow> string \<Rightarrow> qtree_and_node option \<Rightarrow> qtree_and_node" where
  "triple_atom ns k op v nxt = And_Node 0 None (Some ns) (Some k) op (Some v) None None nxt"

definition example_conjunction :: qtree_or_node where
  "example_conjunction =
     Or_Node (Some (named_atom ''red'' None (Some (named_atom ''big'' None None None))
                (Some (triple_atom ''author'' ''name'' TAGSISTANT_EQUAL_TO ''Tx0'' None)))) None"

definition example_conjunction_expanded :: qtree_or_node where
  "example_conjunction_expanded =
     Or_Node (Some (named_atom ''red'' (Some (named_atom ''crimson'' None None None))
                (Some (named_atom ''big'' None None None))
                (Some (triple_atom ''author'' ''name'' TAGSISTANT_EQUAL_TO ''Tx0'' None)))) None"

text \<open>
  The tables of scenarios S1 and S3 of the spec: \<open>red\<close> tags inodes 1 and 2, \<open>big\<close> tags
  inodes 2 and 3; nothing is cached yet.
\<close>

definition example_db :: database where
  "example_db =
     \<lparr>RDS_catalog = [], RDS = [],
      objects = [\<lparr>o_inode = 1, o_objectname = ''one''\<rparr>, \<lparr>o_inode = 2, o_objectname = ''two''\<rparr>,
                 \<lparr>o_inode = 3, o_objectname = ''three''\<rparr>],
      tagging = [\<lparr>tg_inode = 1, tg_tag_id = 1\<rparr>, \<lparr>tg_inode = 2, tg_tag_id = 1\<rparr>,
                 \<lparr>tg_inode = 2, tg_tag_id = 2\<rparr>, \<lparr>tg_inode = 3, tg_tag_id = 2\<rparr>],
      tags = [\<lparr>t_tag_id = 1, t_tagname = ''red'', t_key = None, t_value = None\<rparr>,
              \<lparr>t_tag_id = 2, t_tagname = ''big'', t_key = None, t_value = None\<rparr>],
      autoincrement = 0, last_insert_id = 0, statements = []\<rparr>"

text \<open>A collation for the examples, which hold no triple: no comparison succeeds.\<close>

definition example_cmp :: value_cmp where
  "example_cmp op stored literal = False"

text \<open>\<open>red/-/big/\<close> or \<open>red/big/\<close>: two conjunctions.\<close>

definition red_and_big :: qtree_or_node where
  "red_and_big =
     Or_Node (Some (named_atom ''red'' None None (Some (named_atom ''big'' None None None)))) None"

definition red_not_big_or_red_and_big :: qtree_or_node where
  "red_not_big_or_red_and_big =
     Or_Node (Some (named_atom ''red'' None (Some (named_atom ''big'' None None None)) None))
       (Some red_and_big)"

text \<open>
  The example tables after \<open>red/big/\<close> was prepared and then invalidated: its entry
  has the id 1 and the flag 1, and its RDS holds inode 2.
\<close>

definition expired_db :: database where
  "expired_db =
     example_db\<lparr>RDS_catalog := [\<lparr>c_rds_id = 1, c_subquery = ''red/big/'', c_expired = 1\<rparr>],
                RDS := [\<lparr>r_rds_id = 1, r_inode = 2, r_objectname = ''two''\<rparr>],
                autoincrement := 1, last_insert_id := 1\<rparr>"

text \<open>\<open>red/-/big/\<close> alone.\<close>

definition red_not_big :: qtree_or_node where
  "red_not_big =
     Or_Node (Some (named_atom ''red'' None (Some (named_atom ''big'' None None None)) None)) None"

text \<open>
  Two conjunctions on \<open>red\<close> whose first negated atom is \<open>blue\<close>. In the first the
  atom \<open>blue\<close> is the whole negated chain; in the second its \<open>negated\<close> pointer leads
  on to \<open>big\<close>.
\<close>

definition red_not_blue :: qtree_or_node where
  "red_not_blue =
     Or_Node (Some (named_atom ''red'' None (Some (named_atom ''blue'' None None None)) None)) None"

definition red_not_blue_not_big :: qtree_or_node where
  "red_not_blue_not_big =
     Or_Node (Some (named_atom ''red'' None
                (Some (named_atom ''blue'' None (Some (named_atom ''big'' None None None)) None))
                None)) None"

text \<open>\<open>red/big/\<close> twice in one disjunction.\<close>

definition red_and_big_twice :: qtree_or_node where
  "red_and_big_twice = Or_Node (and_set red_and_big) (Some red_and_big)"

text \<open>
  The example tables with a third tag, \<open>it's\<close>, on inode 2, and \<open>red\<close> without
  \<open>it's\<close>: a negated atom whose tag holds a quote.
\<close>

definition quote_db :: database where
  "quote_db =
     example_db\<lparr>tagging := tagging example_db @ [\<lparr>tg_inode = 2, tg_tag_id = 3\<rparr>],
                tags := tags example_db
                  @ [\<lparr>t_tag_id = 3, t_tagname = ''it's'', t_key = None, t_value = None\<rparr>]\<rparr>"

definition red_not_quote :: qtree_or_node where
  "red_not_quote =
     Or_Node (Some (named_atom ''red'' None (Some (named_atom ''it's'' None None None)) None)) None"

section \<open>The canonicalizer\<close>

lemma add_tag_prefix:
  "tagsistant_RDS_subquery_add_tag s n f = s @ tagsistant_RDS_subquery_add_tag '''' n f"
  by (simp add: tagsistant_RDS_subquery_add_tag_def Let_def split: option.splits operator.splits)

lemma add_tag_negated:
  "tagsistant_RDS_subquery_add_tag s n True = s @ ''-/'' @ render_atom n"
  by (simp add: tagsistant_RDS_subquery_add_tag_def render_atom_def Let_def
      split: option.splits operator.splits)

lemma add_tag_plain:
  "tagsistant_RDS_subquery_add_tag s n False = s @ render_atom n"
  by (simp add: tagsistant_RDS_subquery_add_tag_def render_atom_def Let_def
      split: option.splits operator.splits)

lemma subquery_main_pass_concat:
  "subquery_main_pass s p = s @ concat (map render_atom (next_chain p))"
  by (induction s p rule: subquery_main_pass.induct) (simp_all add: add_tag_plain)

lemma subquery_negated_chain_concat:
  "subquery_negated_chain s p = s @ concat (map (\<lambda>m. ''-/'' @ render_atom m) (next_chain p))"
  by (induction s p rule: subquery_negated_chain.induct) (simp_all add: add_tag_negated)

lemma subquery_negated_pass_concat:
  "subquery_negated_pass s p =
     s @ concat (map (\<lambda>m. ''-/'' @ render_atom m)
                  (concat (map (\<lambda>n. next_chain (negated n)) (next_chain p))))"
  by (induction s p rule: subquery_negated_pass.induct)
     (simp_all add: subquery_negated_chain_concat)

lemma build_subquery_concat:
  "tagsistant_RDS_build_subquery q =
     concat (map render_atom (main_atoms q))
     @ concat (map (\<lambda>m. ''-/'' @ render_atom m) (canonical_negated_atoms q))"
  by (simp add: tagsistant_RDS_build_subquery_def subquery_main_pass_concat
      subquery_negated_pass_concat main_atoms_def canonical_negated_atoms_def)

lemma render_atom_tag: "tag n = Some t \<Longrightarrow> render_atom n = t @ ''/''"
  by (simp add: render_atom_def tagsistant_RDS_subquery_add_tag_def)

lemma render_atom_triple:
  "tag n = None \<Longrightarrow> operator n \<noteq> OTHER_OPERATOR \<Longrightarrow>
   render_atom n = cstr (namespace n) @ ''/'' @ cstr (key n) @ ''/'' @ operator_name (operator n)
      @ ''/'' @ cstr (tag_value n) @ ''/''"
  by (simp add: render_atom_def tagsistant_RDS_subquery_add_tag_def operator_name_def Let_def
      split: operator.splits)

lemma render_atom_fields:
  "atom_fields a = atom_fields b \<Longrightarrow> render_atom a = render_atom b"
  by (simp add: render_atom_def tagsistant_RDS_subquery_add_tag_def atom_fields_def Let_def
      split: option.splits operator.splits)

lemma map_render_atom_fields:
  assumes "map atom_fields xs = map atom_fields ys"
  shows "map render_atom xs = map render_atom ys"
proof -
  from assms have len: "length xs = length ys"
    by (rule map_eq_imp_length_eq)
  have "render_atom (xs ! i) = render_atom (ys ! i)" if "i < length xs" for i
  proof -
    from that len have "map atom_fields xs ! i = atom_fields (xs ! i)"
      and "map atom_fields ys ! i = atom_fields (ys ! i)" by simp_all
    with assms have "atom_fields (xs ! i) = atom_fields (ys ! i)" by simp
    then show ?thesis by (rule render_atom_fields)
  qed
  with len show ?thesis by (simp add: list_eq_iff_nth_eq)
qed

text \<open>
  C1. The canonical subquery of a conjunction is the rendering of each atom of the main
  chain in \<open>next\<close> order, followed by the rendering of each negated atom (found from
  each main atom's \<open>negated\<close> pointer, then along \<open>next\<close>) prefixed by \<open>-/\<close>. A
  named tag renders as \<open>{tag}/\<close>, a triple as \<open>{ns}/{key}/{OP}/{value}/\<close> with OP one of
  eq, inc, gt, lt. Two conjunctions whose main and negated atoms carry the same
  fields in the same order have the same subquery string.
\<close>

theorem canonicalize_format:
  "tagsistant_RDS_build_subquery q =
     concat (map render_atom (main_atoms q))
     @ concat (map (\<lambda>m. ''-/'' @ render_atom m) (canonical_negated_atoms q))
   \<and> (tag named = Some t \<longrightarrow> render_atom named = t @ ''/'')
   \<and> (tag triple = None \<and> operator triple \<noteq> OTHER_OPERATOR \<longrightarrow>
        render_atom triple = cstr (namespace triple) @ ''/'' @ cstr (key triple) @ ''/''
          @ operator_name (operator triple) @ ''/'' @ cstr (tag_value triple) @ ''/''
        \<and> operator_name (operator triple) \<in> {''eq'', ''inc'', ''gt'', ''lt''})
   \<and> (map atom_fields (main_atoms a) = map atom_fields (main_atoms b)
        \<and> map atom_fields (canonical_negated_atoms a) = map atom_fields (canonical_negated_atoms b)
        \<longrightarrow> tagsistant_RDS_build_subquery a = tagsistant_RDS_build_subquery b)"
proof (intro conjI impI)
  show "tagsistant_RDS_build_subquery q =
     concat (map render_atom (main_atoms q))
     @ concat (map (\<lambda>m. ''-/'' @ render_atom m) (canonical_negated_atoms q))"
    by (rule build_subquery_concat)
next
  assume "tag named = Some t"
  then show "render_atom named = t @ ''/''" by (rule render_atom_tag)
next
  assume h: "tag triple = None \<and> operator triple \<noteq> OTHER_OPERATOR"
  then show "render_atom triple = cstr (namespace triple) @ ''/'' @ cstr (key triple) @ ''/''
          @ operator_name (operator triple) @ ''/'' @ cstr (tag_value triple) @ ''/''"
    by (simp add: render_atom_triple)
  from h show "operator_name (operator triple) \<in> {''eq'', ''inc'', ''gt'', ''lt''}"
    by (cases "operator triple") (simp_all add: operator_name_def)
next
  assume h: "map atom_fields (main_atoms a) = map atom_fields (main_atoms b)
        \<and> map atom_fields (canonical_negated_atoms a) = map atom_fields (canonical_negated_atoms b)"
  from h have m: "map render_atom (main_atoms a) = map render_atom (main_atoms b)"
    by (intro map_render_atom_fields) simp
  from h have n: "map render_atom (canonical_negated_atoms a) = map render_atom (canonical_negated_atoms b)"
    by (intro map_render_atom_fields) simp
  have "map (\<lambda>m. ''-/'' @ render_atom m) (canonical_negated_atoms a)
      = map (\<lambda>s. ''-/'' @ s) (map render_atom (canonical_negated_atoms a))"
    by (simp only: map_map o_def)
  also have "\<dots> = map (\<lambda>s. ''-/'' @ s) (map render_atom (canonical_negated_atoms b))"
    by (simp only: n)
  also have "\<dots> = map (\<lambda>m. ''-/'' @ render_atom m) (canonical_negated_atoms b)"
    by (simp only: map_map o_def)
  finally have n': "map (\<lambda>m. ''-/'' @ render_atom m) (canonical_negated_atoms a)
      = map (\<lambda>m. ''-/'' @ render_atom m) (canonical_negated_atoms b)" .
  show "tagsistant_RDS_build_subquery a = tagsistant_RDS_build_subquery b"
    by (simp only: build_subquery_concat m n')
qed

theorem canonicalize_format_witness:
  "tagsistant_RDS_build_subquery example_conjunction = ''red/author/name/eq/Tx0/-/big/''
   \<and> render_atom (named_atom ''red'' None None None) = ''red/''
   \<and> render_atom (triple_atom ''author'' ''name'' TAGSISTANT_EQUAL_TO ''Tx0'' None) = ''author/name/eq/Tx0/''
   \<and> tagsistant_RDS_build_subquery example_conjunction_expanded
       = tagsistant_RDS_build_subquery example_conjunction"
proof -
  let ?named = "named_atom ''red'' None None None"
  let ?triple = "triple_atom ''author'' ''name'' TAGSISTANT_EQUAL_TO ''Tx0'' None"
  note c = canonicalize_format [of example_conjunction ?named "''red''" ?triple
      example_conjunction_expanded example_conjunction]
  have h1: "tag ?named = Some ''red''"
    by (simp add: named_atom_def)
  have h2: "tag ?triple = None \<and> operator ?triple \<noteq> OTHER_OPERATOR"
    by (simp add: triple_atom_def)
  have h3: "map atom_fields (main_atoms example_conjunction_expanded)
              = map atom_fields (main_atoms example_conjunction)
        \<and> map atom_fields (canonical_negated_atoms example_conjunction_expanded)
              = map atom_fields (canonical_negated_atoms example_conjunction)"
    by (simp add: example_conjunction_def example_conjunction_expanded_def main_atoms_def
        canonical_negated_atoms_def named_atom_def triple_atom_def atom_fields_def)
  from c have "tagsistant_RDS_build_subquery example_conjunction =
     concat (map render_atom (main_atoms example_conjunction))
     @ concat (map (\<lambda>m. ''-/'' @ render_atom m) (canonical_negated_atoms example_conjunction))"
    by (rule conjunct1)
  then have r1: "tagsistant_RDS_build_subquery example_conjunction = ''red/author/name/eq/Tx0/-/big/''"
    by (simp add: example_conjunction_def main_atoms_def canonical_negated_atoms_def
        named_atom_def triple_atom_def render_atom_def tagsistant_RDS_subquery_add_tag_def cstr_def)
  from c h1 have r2: "render_atom ?named = ''red/''" by simp
  from c h2 have "render_atom ?triple = cstr (namespace ?triple) @ ''/'' @ cstr (key ?triple) @ ''/''
          @ operator_name (operator ?triple) @ ''/'' @ cstr (tag_value ?triple) @ ''/''"
    by blast
  then have r3: "render_atom ?triple = ''author/name/eq/Tx0/''"
    by (simp add: triple_atom_def cstr_def operator_name_def)
  from c h3 have r4: "tagsistant_RDS_build_subquery example_conjunction_expanded
       = tagsistant_RDS_build_subquery example_conjunction"
    by blast
  from r1 r2 r3 r4 show ?thesis by blast
qed

text \<open>
  C8. With \<open>is_all_path\<close> set, \<open>tagsistant_RDS_prepare\<close> returns NULL for every query
  and every \<open>rebuild_expired_RDS\<close>; it executes no statement and leaves every table as
  it was.
\<close>

theorem prepare_all_path_bypass:
  "tagsistant_RDS_prepare cmp query True rebuild_expired_RDS db = (None, db)"
  by (simp add: tagsistant_RDS_prepare_def)

section \<open>Numerals\<close>

lemma digit_char_digit: "d < 10 \<Longrightarrow> digit_char d \<in> set ''0123456789''"
  unfolding digit_char_def by (rule nth_mem) simp

lemma show_nat_digits: "set (show_nat n) \<subseteq> set ''0123456789''"
proof (induction n rule: show_nat.induct)
  case (1 n)
  show ?case
  proof (cases "n < 10")
    case True
    then show ?thesis
      using digit_char_digit [of n] by (subst show_nat.simps) simp
  next
    case False
    have "n mod 10 < 10" by simp
    then have "digit_char (n mod 10) \<in> set ''0123456789''" by (rule digit_char_digit)
    with False 1 show ?thesis
      by (subst show_nat.simps) simp
  qed
qed

lemma show_int_no_quote: "CHR 0x27 \<notin> set (show_int i)"
  using show_nat_digits [of "nat i"] show_nat_digits [of "nat (- i)"]
  by (auto simp: show_int_def)

lemma parse_digits_append:
  "parse_digits acc (xs @ ys) =
     (case parse_digits acc xs of None \<Rightarrow> None | Some a \<Rightarrow> parse_digits a ys)"
  by (induction xs arbitrary: acc) (simp_all split: option.splits)

lemma digit_value_digit_char: "d < 10 \<Longrightarrow> digit_value (digit_char d) = Some d"
proof -
  assume "d < 10"
  then have "d = 0 \<or> d = 1 \<or> d = 2 \<or> d = 3 \<or> d = 4 \<or> d = 5 \<or> d = 6
    \<or> d = 7 \<or> d = 8 \<or> d = 9" by arith
  then show ?thesis
    by (elim disjE) (simp_all add: digit_value_def digit_char_def)
qed

lemma parse_digits_show_nat: "parse_digits 0 (show_nat n) = Some n"
proof (induction n rule: show_nat.induct)
  case (1 n)
  show ?case
  proof (cases "n < 10")
    case True
    then show ?thesis
      by (subst show_nat.simps) (simp add: digit_value_digit_char)
  next
    case False
    have "n mod 10 < 10" by simp
    then have d: "digit_value (digit_char (n mod 10)) = Some (n mod 10)"
      by (rule digit_value_digit_char)
    from False 1 have ih: "parse_digits 0 (show_nat (n div 10)) = Some (n div 10)" by simp
    from False show ?thesis
      by (subst show_nat.simps) (simp add: parse_digits_append ih d)
  qed
qed

lemma show_nat_not_Nil: "show_nat n \<noteq> []"
  by (subst show_nat.simps) simp

lemma show_nat_hd: "hd (show_nat n) \<noteq> CHR ''-''"
  using show_nat_digits [of n] show_nat_not_Nil [of n]
  by (cases "show_nat n") auto

lemma parse_int_show_int: "parse_int (show_int i) = Some i"
proof (cases "i < 0")
  case True
  then show ?thesis
    by (simp add: parse_int_def show_int_def show_nat_not_Nil parse_digits_show_nat)
next
  case False
  obtain c cs where s: "show_nat (nat i) = c # cs"
    using show_nat_not_Nil [of "nat i"] by (cases "show_nat (nat i)") auto
  with show_nat_hd [of "nat i"] have "c \<noteq> CHR ''-''" by simp
  with False s parse_digits_show_nat [of "nat i"] show ?thesis
    by (simp add: parse_int_def show_int_def)
qed

lemma show_int_chars:
  assumes "c \<in> set (show_int i)"
  shows "c = CHR ''-'' \<or> c \<in> set ''0123456789''"
proof -
  from assms have "c = CHR ''-'' \<or> c \<in> set (show_nat (nat (- i))) \<or> c \<in> set (show_nat (nat i))"
    by (auto simp: show_int_def split: if_splits)
  then show ?thesis
    using show_nat_digits by blast
qed


section \<open>The engine on the statements of the builder\<close>

subsection \<open>The texts\<close>

lemma add_and_set_append:
  "tagsistant_query_add_and_set statement a = statement @ tagsistant_query_add_and_set [] a"
  by (simp add: tagsistant_query_add_and_set_def split: option.splits operator.splits)

lemma add_related_loop_append:
  "add_related_loop statement r = statement @ add_related_loop [] r"
proof (induction r arbitrary: statement rule: related_chain.induct)
  case 1
  then show ?case by simp
next
  case (2 n)
  have a: "tagsistant_query_add_and_set (s @ '' or '') n = s @ '' or '' @ tagsistant_query_add_and_set [] n" for s
    by (subst add_and_set_append) simp
  have "add_related_loop statement (Some n)
      = tagsistant_query_add_and_set (statement @ '' or '') n @ add_related_loop [] (related n)"
    using "2.IH" [of "tagsistant_query_add_and_set (statement @ '' or '') n"] by simp
  moreover have "add_related_loop [] (Some n)
      = tagsistant_query_add_and_set ([] @ '' or '') n @ add_related_loop [] (related n)"
    using "2.IH" [of "tagsistant_query_add_and_set ([] @ '' or '') n"] by simp
  ultimately show ?case
    using a [of "[]"] by (simp add: a)
qed

lemma condition_text_unfold:
  "condition_text n = tagsistant_query_add_and_set [] n
     @ (case related n of None \<Rightarrow> [] | Some rel \<Rightarrow> '' or '' @ condition_text rel)"
proof (cases "related n")
  case None
  then show ?thesis by (simp add: condition_text_def)
next
  case (Some rel)
  have a: "tagsistant_query_add_and_set ([] @ '' or '') rel = '' or '' @ tagsistant_query_add_and_set [] rel"
    by (subst add_and_set_append) simp
  have "condition_text n = tagsistant_query_add_and_set [] n @ add_related_loop [] (Some rel)"
    unfolding condition_text_def Some
    by (rule add_related_loop_append)
  also have "add_related_loop [] (Some rel)
      = tagsistant_query_add_and_set ([] @ '' or '') rel @ add_related_loop [] (related rel)"
    using add_related_loop_append [of "tagsistant_query_add_and_set ([] @ '' or '') rel" "related rel"]
    by simp
  also have "\<dots> = '' or '' @ condition_text rel"
    unfolding a condition_text_def
    using add_related_loop_append [of "tagsistant_query_add_and_set [] rel" "related rel"]
    by simp
  finally show ?thesis unfolding Some by simp
qed

lemma phase_2_text_eq:
  "phase_2_text i n = ''insert into RDS select '' @ show_int i
     @ '', objects.inode, objects.objectname '' @ join_where @ condition_text n"
  unfolding phase_2_text_def condition_text_def
  by (subst add_related_loop_append, subst add_and_set_append)
     (simp add: add_related_loop_append [of "tagsistant_query_add_and_set [] n"])

lemma phase_3_text_eq:
  "phase_3_text i n = ''delete from RDS where rds_id = '' @ show_int i
     @ '' and inode not in (select objects.inode '' @ join_where @ condition_text n @ '')''"
  unfolding phase_3_text_def condition_text_def
  by (subst add_related_loop_append, subst add_and_set_append)
     (simp add: add_related_loop_append [of "tagsistant_query_add_and_set [] n"])

lemma phase_4_text_eq:
  "phase_4_text i n = ''delete from RDS where rds_id = '' @ show_int i
     @ '' and inode in (select objects.inode '' @ join_where @ condition_text n @ '')''"
  unfolding phase_4_text_def condition_text_def
  by (subst add_related_loop_append, subst add_and_set_append)
     (simp add: add_related_loop_append [of "tagsistant_query_add_and_set [] n"])


subsection \<open>Tokens\<close>

lemma tokens_word:
  "list_all word_char w \<Longrightarrow> sql_tokens False cur (w @ rest) = sql_tokens False (cur @ w) rest"
  by (induction w arbitrary: cur) (simp_all add: word_char_def)

lemma tokens_literal:
  "sql_safe t \<Longrightarrow> sql_tokens True cur (t @ rest) = sql_tokens True (cur @ t) rest"
  by (induction t arbitrary: cur) (auto simp: sql_safe_def)

lemma show_int_word: "list_all word_char (show_int i)"
proof -
  have "word_char c" if "c \<in> set (show_int i)" for c
  proof -
    from that have "c = CHR ''-'' \<or> c \<in> set ''0123456789''" by (rule show_int_chars)
    then show ?thesis by (auto simp: word_char_def)
  qed
  then show ?thesis by (simp add: list_all_iff)
qed

lemma show_int_not_Nil: "show_int i \<noteq> []"
  by (simp add: show_int_def show_nat_not_Nil)

lemma tokens_show_int_blank:
  "sql_tokens False [] (show_int i @ CHR '' '' # rest)
     = map_option ((#) (Word (show_int i))) (sql_tokens False [] rest)"
proof -
  have "end_word (show_int i) = (#) (Word (show_int i))"
    by (rule ext) (simp add: end_word_def show_int_not_Nil)
  then show ?thesis
    by (simp add: tokens_word [OF show_int_word])
qed

lemma tokens_show_int_comma:
  "sql_tokens False [] (show_int i @ CHR '','' # rest)
     = map_option (\<lambda>ts. Word (show_int i) # Symbol CHR '','' # ts) (sql_tokens False [] rest)"
  by (simp add: tokens_word [OF show_int_word] end_word_def show_int_not_Nil)

lemma tokens_join_where:
  "sql_tokens False [] (join_where @ rest) = map_option ((@) join_tokens) (sql_tokens False [] rest)"
  by (cases "sql_tokens False [] rest")
     (simp_all add: join_where_def join_tokens_def end_word_def)

lemma tokens_insert:
  "sql_tokens False [] (''insert into RDS select '' @ show_int i
       @ '', objects.inode, objects.objectname '' @ join_where @ rest)
     = map_option ((@) (insert_tokens i)) (sql_tokens False [] rest)"
  by (cases "sql_tokens False [] rest")
     (simp_all add: tokens_show_int_comma [simplified] tokens_join_where insert_tokens_def end_word_def)

lemma tokens_delete_not_in:
  "sql_tokens False [] (''delete from RDS where rds_id = '' @ show_int i
       @ '' and inode not in (select objects.inode '' @ join_where @ rest)
     = map_option ((@) (delete_tokens True i)) (sql_tokens False [] rest)"
  by (cases "sql_tokens False [] rest")
     (simp_all add: tokens_show_int_blank [simplified] tokens_join_where delete_tokens_def end_word_def)

lemma tokens_delete_in:
  "sql_tokens False [] (''delete from RDS where rds_id = '' @ show_int i
       @ '' and inode in (select objects.inode '' @ join_where @ rest)
     = map_option ((@) (delete_tokens False i)) (sql_tokens False [] rest)"
  by (cases "sql_tokens False [] rest")
     (simp_all add: tokens_show_int_blank [simplified] tokens_join_where delete_tokens_def end_word_def)


lemma tokens_quoted:
  "sql_safe t \<Longrightarrow>
   sql_tokens False [] (CHR 0x27 # t @ CHR 0x27 # CHR '' '' # rest)
     = map_option ((#) (Literal t)) (sql_tokens False [] rest)"
  by (cases "sql_tokens False [] rest") (simp_all add: tokens_literal end_word_def)

lemma sql_safe_wrapped: "sql_safe v \<Longrightarrow> sql_safe (CHR ''%'' # v @ ''%'')"
  by (simp add: sql_safe_def)

lemma tokens_fragment:
  assumes "atom_strings_safe a"
  shows "sql_tokens False [] (tagsistant_query_add_and_set [] a @ rest)
     = map_option ((@) (conjunction_tokens (fragment_comparisons a))) (sql_tokens False [] rest)"
proof (cases "tag_id a \<noteq> 0")
  case True
  then show ?thesis
    by (cases "sql_tokens False [] rest")
       (simp_all add: tagsistant_query_add_and_set_def fragment_comparisons_def comparison_tokens_def
          comparator_token_def tokens_show_int_blank [simplified] end_word_def)
next
  case False
  show ?thesis
  proof (cases "tag a")
    case (Some t)
    with assms have "sql_safe t" by (simp add: atom_strings_safe_def cstr_def)
    with False Some show ?thesis
      by (cases "sql_tokens False [] rest")
         (simp_all add: tagsistant_query_add_and_set_def fragment_comparisons_def comparison_tokens_def
            comparator_token_def sq_def tokens_quoted [simplified] end_word_def)
  next
    case None
    show ?thesis
    proof (cases "tag_value a")
      case n: None
      with False None show ?thesis
        by (cases "sql_tokens False [] rest")
           (simp_all add: tagsistant_query_add_and_set_def fragment_comparisons_def)
    next
      case (Some v)
      with assms have s: "sql_safe v" "sql_safe (cstr (namespace a))" "sql_safe (cstr (key a))"
        by (simp_all add: atom_strings_safe_def cstr_def)
      from s(1) have s': "sql_safe (CHR ''%'' # v @ ''%'')" by (rule sql_safe_wrapped)
      note q = tokens_quoted [OF s(1), simplified] tokens_quoted [OF s(2), simplified]
        tokens_quoted [OF s(3), simplified] tokens_quoted [OF s', simplified]
      from False None Some show ?thesis
        by (cases "sql_tokens False [] rest"; cases "operator a")
           (simp_all add: tagsistant_query_add_and_set_def fragment_comparisons_def comparison_tokens_def
              comparator_token_def sq_def q end_word_def)
    qed
  qed
qed

lemma condition_tokens_Cons:
  "cs \<noteq> [] \<Longrightarrow> condition_tokens (c # cs) = conjunction_tokens c @ Word ''or'' # condition_tokens cs"
  by (cases cs) simp_all

lemma node_condition_unfold:
  "node_condition n = fragment_comparisons n
     # (case related n of None \<Rightarrow> [] | Some rel \<Rightarrow> node_condition rel)"
  by (simp add: node_condition_def split: option.splits)

lemma node_condition_not_Nil: "node_condition n \<noteq> []"
  by (simp add: node_condition_def)

lemma tokens_condition:
  "list_all atom_strings_safe (related_chain r) \<Longrightarrow> r = Some n \<Longrightarrow>
   sql_tokens False [] (condition_text n @ rest)
     = map_option ((@) (condition_tokens (node_condition n))) (sql_tokens False [] rest)"
proof (induction r arbitrary: n rest rule: related_chain.induct)
  case 1
  then show ?case by simp
next
  case (2 m)
  then have n: "m = n" and safe: "atom_strings_safe n"
    and safes: "list_all atom_strings_safe (related_chain (related n))" by simp_all
  show ?case
  proof (cases "related n")
    case None
    have "condition_text n = tagsistant_query_add_and_set [] n"
      by (subst condition_text_unfold) (simp add: None)
    moreover have "node_condition n = [fragment_comparisons n]"
      by (subst node_condition_unfold) (simp add: None)
    ultimately show ?thesis
      by (simp add: tokens_fragment [OF safe])
  next
    case (Some rel)
    have t: "condition_text n = tagsistant_query_add_and_set [] n @ '' or '' @ condition_text rel"
      by (subst condition_text_unfold) (simp add: Some)
    have c: "node_condition n = fragment_comparisons n # node_condition rel"
      by (subst node_condition_unfold) (simp add: Some)
    have ih: "sql_tokens False [] (condition_text rel @ rest)
        = map_option ((@) (condition_tokens (node_condition rel))) (sql_tokens False [] rest)"
      using "2.IH" [of rel rest] safes n Some by simp
    have "sql_tokens False [] (condition_text n @ rest)
        = map_option ((@) (conjunction_tokens (fragment_comparisons n)))
            (sql_tokens False [] ('' or '' @ condition_text rel @ rest))"
      unfolding t using tokens_fragment [OF safe, of "'' or '' @ condition_text rel @ rest"] by simp
    also have "sql_tokens False [] ('' or '' @ condition_text rel @ rest)
        = map_option ((#) (Word ''or'')) (sql_tokens False [] (condition_text rel @ rest))"
      by (cases "sql_tokens False [] (condition_text rel @ rest)") (simp_all add: end_word_def)
    finally show ?thesis
      unfolding ih c condition_tokens_Cons [OF node_condition_not_Nil]
      by (cases "sql_tokens False [] rest") simp_all
  qed
qed


subsection \<open>Conditions\<close>

lemma parse_int_columns: "c \<in> set sql_columns \<Longrightarrow> parse_int c = None"
  by (auto simp: sql_columns_def parse_int_def digit_value_def)

lemma read_operand_token:
  "(case x of Column n \<Rightarrow> n \<in> set sql_columns | _ \<Rightarrow> True) \<Longrightarrow> read_operand (operand_token x) = Some x"
  by (cases x) (simp_all add: parse_int_columns parse_int_show_int)

lemma read_comparator_token: "op \<noteq> OTHER_OPERATOR \<Longrightarrow> read_comparator (comparator_token op) = Some op"
  by (cases op) (simp_all add: comparator_token_def)

lemma read_comparison_tokens:
  assumes "comparison_readable c"
  shows "\<exists>l op r. comparison_tokens c = [l, op, r] \<and> read_comparison l op r = Some c"
proof -
  obtain x op y where c: "c = (x, op, y)" by (cases c) auto
  from assms have "read_operand (operand_token x) = Some x" "read_operand (operand_token y) = Some y"
    "read_comparator (comparator_token op) = Some op"
    unfolding c comparison_readable_def
    by (simp_all add: read_operand_token read_comparator_token)
  then show ?thesis
    unfolding c by (simp add: comparison_tokens_def read_comparison_def)
qed

lemma parse_conjunction:
  assumes "list_all comparison_readable cs" and "cs \<noteq> []"
  shows "parse_condition (conjunction_tokens cs) = Some [cs]"
    and "parse_condition (conjunction_tokens cs @ Word ''or'' # others)
          = map_option ((#) cs) (parse_condition others)"
  using assms
proof (induction cs rule: conjunction_tokens.induct)
  case 1
  {
    case 1
    then show ?case by simp
  next
    case 2
    then show ?case by simp
  }
next
  case (2 c)
  {
    case 1
    then have "comparison_readable c" by simp
    then obtain l op r where "comparison_tokens c = [l, op, r]" "read_comparison l op r = Some c"
      using read_comparison_tokens by blast
    then show ?case by simp
  next
    case 2
    then have "comparison_readable c" by simp
    then obtain l op r where "comparison_tokens c = [l, op, r]" "read_comparison l op r = Some c"
      using read_comparison_tokens by blast
    then show ?case by simp
  }
next
  case (3 c d cs)
  {
    case 1
    then have "comparison_readable c" and rest: "list_all comparison_readable (d # cs)" by simp_all
    then obtain l op r where c: "comparison_tokens c = [l, op, r]" "read_comparison l op r = Some c"
      using read_comparison_tokens by blast
    from rest have "parse_condition (conjunction_tokens (d # cs)) = Some [d # cs]"
      by (intro "3.IH"(1)) simp_all
    with c show ?case by simp
  next
    case 2
    then have "comparison_readable c" and rest: "list_all comparison_readable (d # cs)" by simp_all
    then obtain l op r where c: "comparison_tokens c = [l, op, r]" "read_comparison l op r = Some c"
      using read_comparison_tokens by blast
    from rest have "parse_condition (conjunction_tokens (d # cs) @ Word ''or'' # others)
        = map_option ((#) (d # cs)) (parse_condition others)"
      by (intro "3.IH"(2)) simp_all
    with c show ?case by (cases "parse_condition others") simp_all
  }
qed

lemma parse_condition_tokens:
  assumes "list_all (\<lambda>cs. cs \<noteq> [] \<and> list_all comparison_readable cs) cond" and "cond \<noteq> []"
  shows "parse_condition (condition_tokens cond) = Some cond"
  using assms
proof (induction cond rule: condition_tokens.induct)
  case 1
  then show ?case by simp
next
  case (2 c)
  then show ?case by (simp add: parse_conjunction(1))
next
  case (3 c d cs)
  then have "parse_condition (condition_tokens (d # cs)) = Some (d # cs)" by simp
  moreover from "3.prems" have "list_all comparison_readable c" "c \<noteq> []" by simp_all
  ultimately show ?case
    by (simp add: parse_conjunction(2))
qed

lemma fragment_comparisons_readable:
  "atom_well_formed a \<Longrightarrow> fragment_comparisons a \<noteq> [] \<and> list_all comparison_readable (fragment_comparisons a)"
  by (auto simp: atom_well_formed_def fragment_comparisons_def comparison_readable_def sql_columns_def
      split: option.splits)

lemma parse_node_condition:
  assumes "list_all atom_well_formed (related_chain (Some n))"
  shows "parse_condition (condition_tokens (node_condition n)) = Some (node_condition n)"
proof (rule parse_condition_tokens)
  show "node_condition n \<noteq> []" by (rule node_condition_not_Nil)
  from assms show "list_all (\<lambda>cs. cs \<noteq> [] \<and> list_all comparison_readable cs) (node_condition n)"
    unfolding node_condition_def list_all_iff
    using fragment_comparisons_readable by (auto simp: list_all_iff)
qed

lemma fragment_comparisons_eval:
  "atom_well_formed a \<Longrightarrow>
   list_all (\<lambda>c. eval_comparison cmp c row) (fragment_comparisons a) = spec_atom_matches cmp a row"
  by (cases "operator a")
     (auto simp: atom_well_formed_def fragment_comparisons_def spec_atom_matches_def eval_comparison_def
        column_value_def value_matches_def split: option.splits)

lemma node_condition_eval:
  assumes "list_all atom_well_formed (related_chain (Some n))"
  shows "eval_condition cmp (node_condition n) row
     = list_ex (\<lambda>a. spec_atom_matches cmp a row) (related_chain (Some n))"
proof -
  have "list_all (\<lambda>c. eval_comparison cmp c row) (fragment_comparisons a) = spec_atom_matches cmp a row"
    if "a \<in> set (related_chain (Some n))" for a
    using assms that by (intro fragment_comparisons_eval) (auto simp: list_all_iff)
  then show ?thesis
    unfolding eval_condition_def node_condition_def list_ex_iff by auto
qed


subsection \<open>Statements\<close>

lemma strip_prefix_append: "strip_prefix xs (xs @ ys) = Some ys"
  by (induction xs) simp_all

lemma parse_statement_insert:
  "parse_statement (insert_tokens i @ ts) = map_option (Insert_Select i) (parse_condition ts)"
proof -
  let ?head = "[Symbol CHR '','', Word ''objects.inode'', Symbol CHR '','', Word ''objects.objectname'']
      @ join_tokens"
  have "strip_prefix ?head (?head @ ts) = Some ts" by (rule strip_prefix_append)
  then have ins: "parse_insert (insert_tokens i @ ts) = map_option (Insert_Select i) (parse_condition ts)"
    by (simp add: parse_insert_def insert_tokens_def parse_int_show_int)
  have del: "parse_delete (insert_tokens i @ ts) = None"
    by (simp add: parse_delete_def insert_tokens_def)
  show ?thesis
    unfolding parse_statement_def ins del by (cases "parse_condition ts") simp_all
qed

lemma parse_statement_delete:
  "parse_statement (delete_tokens is_not i @ body) =
     (if body \<noteq> [] \<and> last body = Symbol CHR '')''
      then map_option (Delete_Where is_not i) (parse_condition (butlast body))
      else None)"
proof -
  let ?head = "[Word ''in'', Symbol CHR ''('', Word ''select'', Word ''objects.inode''] @ join_tokens"
  have "strip_prefix ?head (?head @ body) = Some body" by (rule strip_prefix_append)
  then have del: "parse_delete (delete_tokens is_not i @ body) =
     (if body \<noteq> [] \<and> last body = Symbol CHR '')''
      then map_option (Delete_Where is_not i) (parse_condition (butlast body))
      else None)"
    by (cases is_not) (simp_all add: parse_delete_def delete_tokens_def parse_int_show_int)
  have ins: "parse_insert (delete_tokens is_not i @ body) = None"
    by (simp add: parse_insert_def delete_tokens_def)
  show ?thesis
    unfolding parse_statement_def ins del by simp
qed

text \<open>What the engine makes of the statements of phases 2 to 4, whatever the atoms hold.\<close>

lemma execute_phase_2:
  "sql_execute cmp (phase_2_text i n) db =
     (case sql_tokens False [] (condition_text n) of
        None \<Rightarrow> db
      | Some ts \<Rightarrow>
          (case parse_condition ts of
             None \<Rightarrow> db
           | Some c \<Rightarrow> run_statement cmp (Insert_Select i c) db))"
  unfolding sql_execute_def phase_2_text_eq
  by (simp add: tokens_insert [simplified] parse_statement_insert split: option.splits)

lemma execute_delete:
  "sql_execute cmp
      (''delete from RDS where rds_id = '' @ show_int i
         @ (if is_not then '' and inode not in (select objects.inode '' else '' and inode in (select objects.inode '')
         @ join_where @ condition_text n @ '')'') db =
     (case sql_tokens False [] (condition_text n @ '')'') of
        None \<Rightarrow> db
      | Some body \<Rightarrow>
          (if body \<noteq> [] \<and> last body = Symbol CHR '')'' then
             (case parse_condition (butlast body) of
                None \<Rightarrow> db
              | Some c \<Rightarrow> run_statement cmp (Delete_Where is_not i c) db)
           else db))"
proof (cases is_not)
  case True
  then show ?thesis
    unfolding sql_execute_def
    using tokens_delete_not_in [of i "condition_text n @ '')''"]
    by (simp add: parse_statement_delete split: option.splits)
next
  case False
  then show ?thesis
    unfolding sql_execute_def
    using tokens_delete_in [of i "condition_text n @ '')''"]
    by (simp add: parse_statement_delete split: option.splits)
qed

lemma execute_phase_3:
  "\<exists>c. sql_execute cmp (phase_3_text i n) db = db
       \<or> sql_execute cmp (phase_3_text i n) db = run_statement cmp (Delete_Where True i c) db"
  unfolding phase_3_text_eq using execute_delete [of cmp i True n db]
  by (auto split: option.splits if_splits)

lemma execute_phase_4:
  "\<exists>c. sql_execute cmp (phase_4_text i n) db = db
       \<or> sql_execute cmp (phase_4_text i n) db = run_statement cmp (Delete_Where False i c) db"
  unfolding phase_4_text_eq using execute_delete [of cmp i False n db]
  by (auto split: option.splits if_splits)

text \<open>
  What the engine reads in the statement of phase 4 for a negated node whose related
  chain holds well-formed atoms with no quote and no backslash in their strings: the
  delete of the rows whose inode the condition meant for the node selects.
\<close>

lemma execute_phase_4_safe:
  assumes "list_all atom_well_formed (related_chain (Some n))"
    and "list_all atom_strings_safe (related_chain (Some n))"
  shows "sql_execute cmp (phase_4_text i n) db
     = run_statement cmp (Delete_Where False i (node_condition n)) db"
proof -
  have "sql_tokens False [] (condition_text n @ '')'')
      = Some (condition_tokens (node_condition n) @ [Symbol CHR '')''])"
    using tokens_condition [OF assms(2) refl, of "'')''"] by (simp add: end_word_def)
  moreover have "parse_condition (condition_tokens (node_condition n)) = Some (node_condition n)"
    using assms(1) by (rule parse_node_condition)
  ultimately show ?thesis
    unfolding phase_4_text_eq using execute_delete [of cmp i False n db] by simp
qed

section \<open>The fragment builder\<close>

lemma sql_safe_null [simp]: "sql_safe ''(null)''"
  by (simp add: sql_safe_def)

lemma fragment_comparisons_literals:
  "concat (map token_literal (conjunction_tokens (fragment_comparisons a))) = interpolated_literals a"
  by (cases "operator a")
     (simp_all add: fragment_comparisons_def interpolated_literals_def comparison_tokens_def
        comparator_token_def split: option.splits)

lemma safe_fragment_intact:
  assumes "atom_strings_safe a"
  shows "fragment_literals_intact a"
proof -
  have "sql_tokens False [] (tagsistant_query_add_and_set [] a)
      = Some (conjunction_tokens (fragment_comparisons a))"
    using tokens_fragment [OF assms, of "[]"] by (simp add: end_word_def)
  then show ?thesis
    unfolding fragment_literals_intact_def sql_literals_def
    by (simp add: fragment_comparisons_literals)
qed

text \<open>
  C9 (as the code has it). \<open>tagsistant_query_add_and_set\<close> appends, for every atom and
  whatever characters its strings hold, the fragment of its kind with tag, namespace,
  key and value interpolated verbatim between single quotes: it binds no parameter,
  escapes nothing and rejects nothing. If tag, namespace, key and value hold no quote
  and no backslash, the string literals the engine reads in the fragment are exactly
  the interpolated strings.
\<close>

theorem add_and_set_interpolates_verbatim:
  "(tag_id a \<noteq> 0 \<longrightarrow>
      tagsistant_query_add_and_set statement a
        = statement @ ''tagging.tag_id = '' @ show_int (tag_id a) @ '' '')
   \<and> (tag_id a = 0 \<and> tag a = Some t \<longrightarrow>
      tagsistant_query_add_and_set statement a = statement @ ''tagname = '' @ sq @ t @ sq @ '' '')
   \<and> (tag_id a = 0 \<and> tag a = None \<and> tag_value a = Some v \<and> operator a = TAGSISTANT_EQUAL_TO \<longrightarrow>
      tagsistant_query_add_and_set statement a
        = statement @ ''tagname = '' @ sq @ cstr (namespace a) @ sq
            @ '' and `key` = '' @ sq @ cstr (key a) @ sq
            @ '' and value = '' @ sq @ v @ sq @ '' '')
   \<and> (tag_id a = 0 \<and> tag a = None \<and> tag_value a = Some v \<and> operator a = TAGSISTANT_CONTAINS \<longrightarrow>
      tagsistant_query_add_and_set statement a
        = statement @ ''tagname = '' @ sq @ cstr (namespace a) @ sq
            @ '' and `key` = '' @ sq @ cstr (key a) @ sq
            @ '' and value like '' @ sq @ ''%'' @ v @ ''%'' @ sq @ '' '')
   \<and> (tag_id a = 0 \<and> tag a = None \<and> tag_value a = Some v \<and> operator a = TAGSISTANT_GREATER_THAN \<longrightarrow>
      tagsistant_query_add_and_set statement a
        = statement @ ''tagname = '' @ sq @ cstr (namespace a) @ sq
            @ '' and `key` = '' @ sq @ cstr (key a) @ sq
            @ '' and value > '' @ sq @ v @ sq @ '' '')
   \<and> (tag_id a = 0 \<and> tag a = None \<and> tag_value a = Some v \<and> operator a = TAGSISTANT_SMALLER_THAN \<longrightarrow>
      tagsistant_query_add_and_set statement a
        = statement @ ''tagname = '' @ sq @ cstr (namespace a) @ sq
            @ '' and `key` = '' @ sq @ cstr (key a) @ sq
            @ '' and value < '' @ sq @ v @ sq @ '' '')
   \<and> (tag_id a = 0 \<and> tag a = None \<and> (tag_value a = None \<or> operator a = OTHER_OPERATOR) \<longrightarrow>
      tagsistant_query_add_and_set statement a = statement)
   \<and> (atom_strings_safe a \<longrightarrow> fragment_literals_intact a)"
proof (intro conjI impI)
  assume "atom_strings_safe a"
  then show "fragment_literals_intact a" by (rule safe_fragment_intact)
qed (auto simp: tagsistant_query_add_and_set_def split: option.splits)

theorem add_and_set_interpolates_verbatim_witness:
  "tagsistant_query_add_and_set ''where '' (And_Node 7 None None None OTHER_OPERATOR None None None None)
     = ''where tagging.tag_id = 7 ''
   \<and> tagsistant_query_add_and_set ''where '' (named_atom ''red'' None None None)
     = ''where tagname = 'red' ''
   \<and> tagsistant_query_add_and_set ''where '' (triple_atom ''author'' ''name'' TAGSISTANT_EQUAL_TO ''Tx0'' None)
     = ''where tagname = 'author' and `key` = 'name' and value = 'Tx0' ''
   \<and> tagsistant_query_add_and_set ''where '' (triple_atom ''author'' ''name'' TAGSISTANT_CONTAINS ''Tx0'' None)
     = ''where tagname = 'author' and `key` = 'name' and value like '%Tx0%' ''
   \<and> tagsistant_query_add_and_set ''where '' (triple_atom ''file'' ''size'' TAGSISTANT_GREATER_THAN ''10'' None)
     = ''where tagname = 'file' and `key` = 'size' and value > '10' ''
   \<and> tagsistant_query_add_and_set ''where '' (triple_atom ''file'' ''size'' TAGSISTANT_SMALLER_THAN ''10'' None)
     = ''where tagname = 'file' and `key` = 'size' and value < '10' ''
   \<and> tagsistant_query_add_and_set ''where '' (And_Node 0 None None None OTHER_OPERATOR None None None None)
     = ''where ''
   \<and> fragment_literals_intact (triple_atom ''author'' ''name'' TAGSISTANT_CONTAINS ''Tx0'' None)"
proof -
  let ?by_id = "And_Node 7 None None None OTHER_OPERATOR None None None None"
  let ?named = "named_atom ''red'' None None None"
  let ?eq = "triple_atom ''author'' ''name'' TAGSISTANT_EQUAL_TO ''Tx0'' None"
  let ?inc = "triple_atom ''author'' ''name'' TAGSISTANT_CONTAINS ''Tx0'' None"
  let ?gt = "triple_atom ''file'' ''size'' TAGSISTANT_GREATER_THAN ''10'' None"
  let ?lt = "triple_atom ''file'' ''size'' TAGSISTANT_SMALLER_THAN ''10'' None"
  let ?none = "And_Node 0 None None None OTHER_OPERATOR None None None None"
  have show_7: "show_int 7 = ''7''" by code_simp
  from add_and_set_interpolates_verbatim [where a = ?by_id and statement = "''where ''"]
  have r1: "tagsistant_query_add_and_set ''where '' ?by_id = ''where tagging.tag_id = 7 ''"
    by (simp add: show_7)
  from add_and_set_interpolates_verbatim [where a = ?named and statement = "''where ''" and t = "''red''"]
  have r2: "tagsistant_query_add_and_set ''where '' ?named = ''where tagname = 'red' ''"
    by (simp add: named_atom_def sq_def)
  from add_and_set_interpolates_verbatim [where a = ?eq and statement = "''where ''" and v = "''Tx0''"]
  have r3: "tagsistant_query_add_and_set ''where '' ?eq
      = ''where tagname = 'author' and `key` = 'name' and value = 'Tx0' ''"
    by (simp add: triple_atom_def sq_def cstr_def)
  from add_and_set_interpolates_verbatim [where a = ?inc and statement = "''where ''" and v = "''Tx0''"]
  have r4: "tagsistant_query_add_and_set ''where '' ?inc
      = ''where tagname = 'author' and `key` = 'name' and value like '%Tx0%' ''"
    by (simp add: triple_atom_def sq_def cstr_def)
  from add_and_set_interpolates_verbatim [where a = ?gt and statement = "''where ''" and v = "''10''"]
  have r5: "tagsistant_query_add_and_set ''where '' ?gt
      = ''where tagname = 'file' and `key` = 'size' and value > '10' ''"
    by (simp add: triple_atom_def sq_def cstr_def)
  from add_and_set_interpolates_verbatim [where a = ?lt and statement = "''where ''" and v = "''10''"]
  have r6: "tagsistant_query_add_and_set ''where '' ?lt
      = ''where tagname = 'file' and `key` = 'size' and value < '10' ''"
    by (simp add: triple_atom_def sq_def cstr_def)
  from add_and_set_interpolates_verbatim [where a = ?none and statement = "''where ''"]
  have r7: "tagsistant_query_add_and_set ''where '' ?none = ''where ''"
    by simp
  have safe: "atom_strings_safe ?inc"
    by (simp add: atom_strings_safe_def triple_atom_def sql_safe_def cstr_def)
  from add_and_set_interpolates_verbatim [where a = ?inc] safe
  have r8: "fragment_literals_intact ?inc"
    by blast
  from r1 r2 r3 r4 r5 r6 r7 r8 show ?thesis by blast
qed

text \<open>
  C9 as stated fails: a tag that holds quotes is appended as it is, it closes its
  literal early, and the engine reads three literals and two comparisons where the
  builder interpolated one tag.
\<close>

theorem add_and_set_quote_counterexample:
  "tagsistant_query_add_and_set [] (named_atom ''x' or 'a' = 'a'' None None None)
     = ''tagname = 'x' or 'a' = 'a' ''
   \<and> sql_literals (tagsistant_query_add_and_set [] (named_atom ''x' or 'a' = 'a'' None None None))
     = Some [''x'', ''a'', ''a'']
   \<and> map_option parse_condition
        (sql_tokens False [] (tagsistant_query_add_and_set [] (named_atom ''x' or 'a' = 'a'' None None None)))
     = Some (Some [[(Column ''tagname'', TAGSISTANT_EQUAL_TO, Text ''x'')],
                   [(Text ''a'', TAGSISTANT_EQUAL_TO, Text ''a'')]])
   \<and> \<not> fragment_literals_intact (named_atom ''x' or 'a' = 'a'' None None None)"
  by code_simp

section \<open>The fingerprint string\<close>

lemma prepare_run_Some:
  "prepare_run cmp rb (Some q) db =
     (fst (fetch_or_build cmp rb q db) # fst (prepare_run cmp rb (next_or q) (snd (fetch_or_build cmp rb q db))),
      snd (prepare_run cmp rb (next_or q) (snd (fetch_or_build cmp rb q db))))"
  by (simp split: prod.splits)

lemma prepare_loop_Some:
  "prepare_loop cmp rb acc (Some q) db =
     prepare_loop cmp rb (acc @ '', '' @ show_int (fst (fetch_or_build cmp rb q db))) (next_or q)
       (snd (fetch_or_build cmp rb q db))"
  by (simp split: prod.splits)

lemma prepare_run_None [simp]: "prepare_run cmp rb None db = ([], db)"
  by simp

lemma prepare_loop_None [simp]: "prepare_loop cmp rb acc None db = (acc, db)"
  by simp

declare prepare_run.simps [simp del]

declare prepare_loop.simps [simp del]

lemma prepare_loop_run:
  "prepare_loop cmp rb acc chain db =
     (acc @ concat (map (\<lambda>i. '', '' @ show_int i) (fst (prepare_run cmp rb chain db))),
      snd (prepare_run cmp rb chain db))"
proof (induction chain arbitrary: acc db rule: or_chain.induct)
  case 1
  then show ?case by simp
next
  case (2 q)
  show ?case
    by (simp only: prepare_loop_Some prepare_run_Some "2.IH" fst_conv snd_conv list.map concat.simps
        append_assoc)
qed

lemma length_prepare_run:
  "length (fst (prepare_run cmp rb chain db)) = length (or_chain chain)"
proof (induction chain arbitrary: db rule: or_chain.induct)
  case 1
  then show ?case by simp
next
  case (2 q)
  then show ?case
    by (simp only: prepare_run_Some fst_conv or_chain.simps list.size length_Cons)
qed

lemma join_with_concat:
  "join_with '', '' (x # xs) = x @ concat (map (\<lambda>s. '', '' @ s) xs)"
  by (induction xs arbitrary: x) simp_all

lemma dropWhile_blank_id: "CHR '' '' \<notin> set s \<Longrightarrow> dropWhile (\<lambda>c. c = CHR '' '') s = s"
  by (cases s) auto

lemma trim_blanks_id: "CHR '' '' \<notin> set s \<Longrightarrow> trim_blanks s = s"
  by (simp add: trim_blanks_def dropWhile_blank_id)

lemma trim_blanks_leading: "CHR '' '' \<notin> set s \<Longrightarrow> trim_blanks (CHR '' '' # s) = s"
  by (simp add: trim_blanks_def dropWhile_blank_id)

lemma show_int_no_blank: "CHR '' '' \<notin> set (show_int i)"
proof
  assume "CHR '' '' \<in> set (show_int i)"
  then have "CHR '' '' = CHR ''-'' \<or> CHR '' '' \<in> set ''0123456789''"
    by (rule show_int_chars)
  then show False by simp
qed

lemma show_int_no_comma: "CHR '','' \<notin> set (show_int i)"
proof
  assume "CHR '','' \<in> set (show_int i)"
  then have "CHR '','' = CHR ''-'' \<or> CHR '','' \<in> set ''0123456789''"
    by (rule show_int_chars)
  then show False by simp
qed

lemma split_commas_not_Nil: "split_commas s \<noteq> []"
  by (induction s) (simp_all split: list.splits)

lemma split_commas_append:
  "CHR '','' \<notin> set s \<Longrightarrow>
   split_commas (s @ r) = (s @ hd (split_commas r)) # tl (split_commas r)"
proof (induction s)
  case Nil
  then show ?case using split_commas_not_Nil [of r] by simp
next
  case (Cons c s)
  then show ?case by auto
qed

lemma split_commas_items:
  "split_commas (concat (map (\<lambda>i. '', '' @ show_int i) ids))
     = [] # map (\<lambda>i. CHR '' '' # show_int i) ids"
proof (induction ids)
  case Nil
  then show ?case by simp
next
  case (Cons i ids)
  have "split_commas ((CHR '' '' # show_int i) @ concat (map (\<lambda>i. '', '' @ show_int i) ids))
     = ((CHR '' '' # show_int i) @ hd (split_commas (concat (map (\<lambda>i. '', '' @ show_int i) ids))))
        # tl (split_commas (concat (map (\<lambda>i. '', '' @ show_int i) ids)))"
    by (rule split_commas_append) (simp add: show_int_no_comma)
  with Cons show ?case by simp
qed

lemma those_map_Some: "those (map Some xs) = Some xs"
  by (induction xs) simp_all

lemma sql_int_list_fingerprint:
  "sql_int_list (drop 2 (concat (map (\<lambda>i. '', '' @ show_int i) (i # ids)))) = Some (i # ids)"
proof -
  define raw where "raw = concat (map (\<lambda>i. '', '' @ show_int i) ids)"
  have items: "split_commas raw = [] # map (\<lambda>i. CHR '' '' # show_int i) ids"
    unfolding raw_def by (rule split_commas_items)
  have d: "drop 2 (concat (map (\<lambda>i. '', '' @ show_int i) (i # ids))) = show_int i @ raw"
    by (simp add: raw_def)
  have "split_commas (show_int i @ raw) = (show_int i @ hd (split_commas raw)) # tl (split_commas raw)"
    by (rule split_commas_append) (rule show_int_no_comma)
  with items have sp: "split_commas (show_int i @ raw) = show_int i # map (\<lambda>i. CHR '' '' # show_int i) ids"
    by simp
  have "map (\<lambda>item. parse_int (trim_blanks item)) (show_int i # map (\<lambda>i. CHR '' '' # show_int i) ids)
     = map Some (i # ids)"
    by (simp add: trim_blanks_id trim_blanks_leading show_int_no_blank parse_int_show_int o_def)
  with sp d show ?thesis
    by (simp only: sql_int_list_def those_map_Some)
qed

section \<open>The catalog protocol\<close>

subsection \<open>The lookup\<close>

lemma select_statements [simp]:
  "sql_select_rds_id s (db\<lparr>statements := x\<rparr>) = sql_select_rds_id s db"
  by (simp add: sql_select_rds_id_def)

lemma select_RDS [simp]:
  "sql_select_rds_id s (db\<lparr>RDS := x\<rparr>) = sql_select_rds_id s db"
  by (simp add: sql_select_rds_id_def)

lemma select_catalog_cong:
  "RDS_catalog db' = RDS_catalog db \<Longrightarrow> sql_select_rds_id s db' = sql_select_rds_id s db"
  by (simp add: sql_select_rds_id_def)

lemma foldl_last_id:
  "foldl (\<lambda>rds_id c. c_rds_id c) z xs = (if xs = [] then z else c_rds_id (last xs))"
  by (induction xs arbitrary: z) simp_all

lemma select_rows:
  "sql_select_rds_id s db =
     (if filter (\<lambda>c. c_subquery c = s) (RDS_catalog db) = [] then 0
      else c_rds_id (last (filter (\<lambda>c. c_subquery c = s) (RDS_catalog db))))"
  by (simp add: sql_select_rds_id_def foldl_last_id)

lemma select_rows_cong:
  "filter (\<lambda>c. c_subquery c = s) (RDS_catalog db') = filter (\<lambda>c. c_subquery c = s) (RDS_catalog db)
   \<Longrightarrow> sql_select_rds_id s db' = sql_select_rds_id s db"
  by (simp add: select_rows)

lemma select_nonzero_row:
  assumes "sql_select_rds_id s db \<noteq> 0"
  shows "\<exists>c \<in> set (RDS_catalog db). c_rds_id c = sql_select_rds_id s db \<and> c_subquery c = s"
proof -
  let ?rows = "filter (\<lambda>c. c_subquery c = s) (RDS_catalog db)"
  from assms have ne: "?rows \<noteq> []" by (auto simp: select_rows)
  then have "last ?rows \<in> set ?rows" by (rule last_in_set)
  moreover from ne have "sql_select_rds_id s db = c_rds_id (last ?rows)" by (simp add: select_rows)
  ultimately show ?thesis by auto
qed

lemma select_zero_no_row:
  assumes "catalog_wf db" and "sql_select_rds_id s db = 0"
  shows "filter (\<lambda>c. c_subquery c = s) (RDS_catalog db) = []"
proof (rule ccontr)
  let ?rows = "filter (\<lambda>c. c_subquery c = s) (RDS_catalog db)"
  assume ne: "?rows \<noteq> []"
  then have "last ?rows \<in> set ?rows" by (rule last_in_set)
  then have "last ?rows \<in> set (RDS_catalog db)" by simp
  with assms(1) have "0 < c_rds_id (last ?rows)"
    by (auto simp: catalog_wf_def list_all_iff)
  moreover from ne assms(2) have "c_rds_id (last ?rows) = 0" by (simp add: select_rows)
  ultimately show False by simp
qed

subsection \<open>tagsistant_RDS_fetch_id\<close>

lemma fetch_id_lookup:
  "tagsistant_RDS_fetch_id s False db =
     (sql_select_rds_id s db, db\<lparr>statements := statements db @ [select_statement s]\<rparr>)"
  by (simp add: tagsistant_RDS_fetch_id_def tagsistant_query_def select_statement_def)

lemma fetch_id_rebuild:
  "tagsistant_RDS_fetch_id s True db =
     (0, db\<lparr>RDS := filter
              (\<lambda>r. r_rds_id r \<notin> set (map c_rds_id (filter (\<lambda>c. c_subquery c = s) (RDS_catalog db))))
              (RDS db),
            RDS_catalog := filter (\<lambda>c. c_subquery c \<noteq> s) (RDS_catalog db),
            statements := statements db @
              [''delete from RDS where rds_id = (select rds_id from RDS_catalog where subquery = ''
                 @ sq @ s @ sq @ '')'',
               ''delete from RDS_catalog where subquery = '' @ sq @ s @ sq,
               select_statement s]\<rparr>)"
  by (simp add: tagsistant_RDS_fetch_id_def tagsistant_query_def select_statement_def
      sql_delete_rds_of_subquery_def sql_delete_catalog_of_subquery_def sql_select_rds_id_def)

subsection \<open>tagsistant_RDS_build\<close>

lemma selected_objects_cong:
  "objects db' = objects db \<Longrightarrow> tagging db' = tagging db \<Longrightarrow> tags db' = tags db
   \<Longrightarrow> selected_objects p db' = selected_objects p db"
  by (simp add: selected_objects_def joined_def)

lemma only_deletes_refl: "only_deletes_rds db db"
  by (simp add: only_deletes_rds_def)

lemma only_deletes_trans:
  assumes "only_deletes_rds a b" and "only_deletes_rds b c"
  shows "only_deletes_rds a c"
proof -
  from assms have "set (RDS c) \<subseteq> set (RDS b)" and "set (RDS b) \<subseteq> set (RDS a)"
    unfolding only_deletes_rds_def by blast+
  then have "set (RDS c) \<subseteq> set (RDS a)" by (rule subset_trans)
  moreover from assms have "RDS_catalog c = RDS_catalog a" "autoincrement c = autoincrement a"
    "objects c = objects a" "tagging c = tagging a" "tags c = tags a"
    unfolding only_deletes_rds_def by simp_all
  ultimately show ?thesis unfolding only_deletes_rds_def by blast
qed

lemma only_deletes_selected:
  "only_deletes_rds db db' \<Longrightarrow> selected_objects p db' = selected_objects p db"
  unfolding only_deletes_rds_def by (intro selected_objects_cong) simp_all

lemma log_only_deletes: "only_deletes_rds db (db\<lparr>statements := s\<rparr>)"
  by (simp add: only_deletes_rds_def)

lemma run_delete_only_deletes:
  "only_deletes_rds db (run_statement cmp (Delete_Where is_not i c) (db\<lparr>statements := s\<rparr>))"
  by (auto simp: only_deletes_rds_def)

lemma delete_not_in_only_deletes:
  "only_deletes_rds db (tagsistant_query (phase_3_text i n) (sql_execute cmp (phase_3_text i n)) db)"
proof -
  define db0 where "db0 = db\<lparr>statements := statements db @ [phase_3_text i n]\<rparr>"
  obtain c where "sql_execute cmp (phase_3_text i n) db0 = db0
      \<or> sql_execute cmp (phase_3_text i n) db0 = run_statement cmp (Delete_Where True i c) db0"
    using execute_phase_3 by blast
  then have "only_deletes_rds db (sql_execute cmp (phase_3_text i n) db0)"
    unfolding db0_def using log_only_deletes run_delete_only_deletes by metis
  then show ?thesis
    unfolding tagsistant_query_def db0_def .
qed

lemma delete_in_only_deletes:
  "only_deletes_rds db (tagsistant_query (phase_4_text i n) (sql_execute cmp (phase_4_text i n)) db)"
proof -
  define db0 where "db0 = db\<lparr>statements := statements db @ [phase_4_text i n]\<rparr>"
  obtain c where "sql_execute cmp (phase_4_text i n) db0 = db0
      \<or> sql_execute cmp (phase_4_text i n) db0 = run_statement cmp (Delete_Where False i c) db0"
    using execute_phase_4 by blast
  then have "only_deletes_rds db (sql_execute cmp (phase_4_text i n) db0)"
    unfolding db0_def using log_only_deletes run_delete_only_deletes by metis
  then show ?thesis
    unfolding tagsistant_query_def db0_def .
qed

lemma phase_3_loop_only_deletes: "only_deletes_rds db (phase_3_loop cmp i start db)"
proof (induction cmp i start db rule: phase_3_loop.induct)
  case (1 cmp rds_id db)
  then show ?case by (simp add: only_deletes_refl)
next
  case (2 cmp rds_id nxt db)
  then show ?case
    using delete_not_in_only_deletes only_deletes_trans by (simp only: phase_3_loop.simps) blast
qed

lemma phase_4_negated_loop_only_deletes:
  "only_deletes_rds db (phase_4_negated_loop cmp i start db)"
proof (induction cmp i start db rule: phase_4_negated_loop.induct)
  case (1 cmp rds_id db)
  then show ?case by (simp add: only_deletes_refl)
next
  case (2 cmp rds_id neg db)
  then show ?case
    using delete_in_only_deletes only_deletes_trans
    by (simp only: phase_4_negated_loop.simps) blast
qed

lemma phase_4_loop_only_deletes: "only_deletes_rds db (phase_4_loop cmp i start db)"
proof (induction cmp i start db rule: phase_4_loop.induct)
  case (1 cmp rds_id db)
  then show ?case by (simp add: only_deletes_refl)
next
  case (2 cmp rds_id nxt db)
  then show ?case
    using phase_4_negated_loop_only_deletes only_deletes_trans
    by (simp only: phase_4_loop.simps) blast
qed

lemma insert_catalog_fields:
  "RDS_catalog (tagsistant_query t (sql_insert_catalog s) db)
     = RDS_catalog db @ [\<lparr>c_rds_id = autoincrement db + 1, c_subquery = s, c_expired = 0\<rparr>]
   \<and> autoincrement (tagsistant_query t (sql_insert_catalog s) db) = autoincrement db + 1
   \<and> tagsistant_last_insert_id (tagsistant_query t (sql_insert_catalog s) db) = autoincrement db + 1
   \<and> objects (tagsistant_query t (sql_insert_catalog s) db) = objects db
   \<and> tagging (tagsistant_query t (sql_insert_catalog s) db) = tagging db
   \<and> tags (tagsistant_query t (sql_insert_catalog s) db) = tags db
   \<and> RDS (tagsistant_query t (sql_insert_catalog s) db) = RDS db"
  by (simp add: tagsistant_query_def sql_insert_catalog_def Let_def tagsistant_last_insert_id_def)

lemma insert_rds_select_fields:
  "RDS_catalog (tagsistant_query (phase_2_text i n) (sql_execute cmp (phase_2_text i n)) db) = RDS_catalog db
   \<and> autoincrement (tagsistant_query (phase_2_text i n) (sql_execute cmp (phase_2_text i n)) db) = autoincrement db
   \<and> objects (tagsistant_query (phase_2_text i n) (sql_execute cmp (phase_2_text i n)) db) = objects db
   \<and> tagging (tagsistant_query (phase_2_text i n) (sql_execute cmp (phase_2_text i n)) db) = tagging db
   \<and> tags (tagsistant_query (phase_2_text i n) (sql_execute cmp (phase_2_text i n)) db) = tags db
   \<and> set (RDS (tagsistant_query (phase_2_text i n) (sql_execute cmp (phase_2_text i n)) db))
        \<subseteq> set (RDS db) \<union> {r. r_rds_id r = i}"
proof -
  define db0 where "db0 = db\<lparr>statements := statements db @ [phase_2_text i n]\<rparr>"
  have f0: "RDS_catalog db0 = RDS_catalog db" "autoincrement db0 = autoincrement db"
    "objects db0 = objects db" "tagging db0 = tagging db" "tags db0 = tags db" "RDS db0 = RDS db"
    unfolding db0_def by simp_all
  have "RDS_catalog (sql_execute cmp (phase_2_text i n) db0) = RDS_catalog db0
   \<and> autoincrement (sql_execute cmp (phase_2_text i n) db0) = autoincrement db0
   \<and> objects (sql_execute cmp (phase_2_text i n) db0) = objects db0
   \<and> tagging (sql_execute cmp (phase_2_text i n) db0) = tagging db0
   \<and> tags (sql_execute cmp (phase_2_text i n) db0) = tags db0
   \<and> set (RDS (sql_execute cmp (phase_2_text i n) db0)) \<subseteq> set (RDS db0) \<union> {r. r_rds_id r = i}"
    unfolding execute_phase_2 by (auto split: option.splits)
  then show ?thesis
    unfolding tagsistant_query_def db0_def [symmetric] f0 .
qed

text \<open>The database after phases 1 and 2, from which phases 3 and 4 only delete.\<close>

lemma build_only_deletes:
  "\<exists>mid. only_deletes_rds mid (snd (tagsistant_RDS_build cmp q s db))
     \<and> RDS_catalog mid = RDS_catalog db @ [\<lparr>c_rds_id = autoincrement db + 1, c_subquery = s, c_expired = 0\<rparr>]
     \<and> autoincrement mid = autoincrement db + 1
     \<and> objects mid = objects db \<and> tagging mid = tagging db \<and> tags mid = tags db
     \<and> set (RDS mid) \<subseteq> set (RDS db) \<union> {r. r_rds_id r = autoincrement db + 1}"
proof -
  define db1 where "db1 = tagsistant_query
      (''insert into RDS_catalog (subquery) values ('' @ sq @ s @ sq @ '')'') (sql_insert_catalog s) db"
  define i where "i = tagsistant_last_insert_id db1"
  have f1: "RDS_catalog db1 = RDS_catalog db @ [\<lparr>c_rds_id = autoincrement db + 1, c_subquery = s, c_expired = 0\<rparr>]"
    "autoincrement db1 = autoincrement db + 1" "i = autoincrement db + 1"
    "objects db1 = objects db" "tagging db1 = tagging db" "tags db1 = tags db" "RDS db1 = RDS db"
    unfolding db1_def i_def using insert_catalog_fields by blast+
  show ?thesis
  proof (cases "and_set q")
    case None
    then have "snd (tagsistant_RDS_build cmp q s db) = db1"
      by (simp add: tagsistant_RDS_build_def Let_def db1_def)
    with f1 only_deletes_refl [of db1] show ?thesis by auto
  next
    case (Some head)
    define mid where "mid = tagsistant_query (phase_2_text i head) (sql_execute cmp (phase_2_text i head)) db1"
    from Some have fin: "snd (tagsistant_RDS_build cmp q s db)
        = phase_4_loop cmp i (Some head) (phase_3_loop cmp i (next_and head) mid)"
      by (simp add: tagsistant_RDS_build_def Let_def db1_def i_def mid_def)
    have od: "only_deletes_rds mid (snd (tagsistant_RDS_build cmp q s db))"
      unfolding fin
      by (rule only_deletes_trans [OF phase_3_loop_only_deletes phase_4_loop_only_deletes])
    have f2: "RDS_catalog mid = RDS_catalog db1" "autoincrement mid = autoincrement db1"
      "objects mid = objects db1" "tagging mid = tagging db1" "tags mid = tags db1"
      "set (RDS mid) \<subseteq> set (RDS db1) \<union> {r. r_rds_id r = i}"
      unfolding mid_def using insert_rds_select_fields by blast+
    from od f1 f2 show ?thesis by auto
  qed
qed

lemma build_fst: "fst (tagsistant_RDS_build cmp q s db) = autoincrement db + 1"
  by (simp add: tagsistant_RDS_build_def Let_def insert_catalog_fields split: option.splits)

lemma build_catalog:
  "RDS_catalog (snd (tagsistant_RDS_build cmp q s db))
     = RDS_catalog db @ [\<lparr>c_rds_id = autoincrement db + 1, c_subquery = s, c_expired = 0\<rparr>]"
  using build_only_deletes [of cmp q s db] by (auto simp: only_deletes_rds_def)

lemma build_autoincrement:
  "autoincrement (snd (tagsistant_RDS_build cmp q s db)) = autoincrement db + 1"
  using build_only_deletes [of cmp q s db] by (auto simp: only_deletes_rds_def)

lemma build_tables:
  "objects (snd (tagsistant_RDS_build cmp q s db)) = objects db
   \<and> tagging (snd (tagsistant_RDS_build cmp q s db)) = tagging db
   \<and> tags (snd (tagsistant_RDS_build cmp q s db)) = tags db"
  using build_only_deletes [of cmp q s db] by (auto simp: only_deletes_rds_def)

lemma build_RDS:
  "set (RDS (snd (tagsistant_RDS_build cmp q s db)))
     \<subseteq> set (RDS db) \<union> {r. r_rds_id r = autoincrement db + 1}"
  using build_only_deletes [of cmp q s db] by (auto simp: only_deletes_rds_def)

subsection \<open>One iteration of the loop of tagsistant_RDS_prepare\<close>

lemma fetch_or_build_hit:
  "sql_select_rds_id (tagsistant_RDS_build_subquery q) db \<noteq> 0 \<Longrightarrow>
   fetch_or_build cmp False q db =
     (sql_select_rds_id (tagsistant_RDS_build_subquery q) db,
      db\<lparr>statements := statements db @ [select_statement (tagsistant_RDS_build_subquery q)]\<rparr>)"
  by (simp add: fetch_or_build_def fetch_id_lookup Let_def)

lemma fetch_or_build_miss:
  "sql_select_rds_id (tagsistant_RDS_build_subquery q) db = 0 \<Longrightarrow>
   fetch_or_build cmp False q db =
     tagsistant_RDS_build cmp q (tagsistant_RDS_build_subquery q)
       (db\<lparr>statements := statements db @ [select_statement (tagsistant_RDS_build_subquery q)]\<rparr>)"
  by (simp add: fetch_or_build_def fetch_id_lookup Let_def)

lemma fetch_or_build_rebuild:
  "fetch_or_build cmp True q db =
     tagsistant_RDS_build cmp q (tagsistant_RDS_build_subquery q)
       (snd (tagsistant_RDS_fetch_id (tagsistant_RDS_build_subquery q) True db))"
  by (simp add: fetch_or_build_def fetch_id_rebuild Let_def)

text \<open>The new catalog row of a build.\<close>

lemma step_lookup:
  fixes cmp q db
  defines "s \<equiv> tagsistant_RDS_build_subquery q"
  defines "step \<equiv> fetch_or_build cmp False q db"
  shows "fst step = (if sql_select_rds_id s db \<noteq> 0 then sql_select_rds_id s db else autoincrement db + 1)"
    and "RDS_catalog (snd step) =
          (if sql_select_rds_id s db \<noteq> 0 then RDS_catalog db
           else RDS_catalog db @ [\<lparr>c_rds_id = autoincrement db + 1, c_subquery = s, c_expired = 0\<rparr>])"
    and "autoincrement (snd step) =
          (if sql_select_rds_id s db \<noteq> 0 then autoincrement db else autoincrement db + 1)"
    and "set (RDS (snd step)) \<subseteq> set (RDS db) \<union> {r. r_rds_id r = autoincrement db + 1}"
    and "objects (snd step) = objects db \<and> tagging (snd step) = tagging db \<and> tags (snd step) = tags db"
proof -
  let ?db0 = "db\<lparr>statements := statements db @ [select_statement s]\<rparr>"
  show "fst step = (if sql_select_rds_id s db \<noteq> 0 then sql_select_rds_id s db else autoincrement db + 1)"
    unfolding step_def s_def by (simp add: fetch_or_build_hit fetch_or_build_miss build_fst)
  show "RDS_catalog (snd step) =
          (if sql_select_rds_id s db \<noteq> 0 then RDS_catalog db
           else RDS_catalog db @ [\<lparr>c_rds_id = autoincrement db + 1, c_subquery = s, c_expired = 0\<rparr>])"
    unfolding step_def s_def by (simp add: fetch_or_build_hit fetch_or_build_miss build_catalog)
  show "autoincrement (snd step) =
          (if sql_select_rds_id s db \<noteq> 0 then autoincrement db else autoincrement db + 1)"
    unfolding step_def s_def by (simp add: fetch_or_build_hit fetch_or_build_miss build_autoincrement)
  show "set (RDS (snd step)) \<subseteq> set (RDS db) \<union> {r. r_rds_id r = autoincrement db + 1}"
  proof (cases "sql_select_rds_id s db \<noteq> 0")
    case True
    then show ?thesis unfolding step_def s_def by (auto simp: fetch_or_build_hit)
  next
    case False
    then have "snd step = snd (tagsistant_RDS_build cmp q s ?db0)"
      unfolding step_def s_def by (simp add: fetch_or_build_miss)
    with build_RDS [of cmp q s ?db0] show ?thesis by simp
  qed
  show "objects (snd step) = objects db \<and> tagging (snd step) = tagging db \<and> tags (snd step) = tags db"
  proof (cases "sql_select_rds_id s db \<noteq> 0")
    case True
    then show ?thesis unfolding step_def s_def by (simp add: fetch_or_build_hit)
  next
    case False
    then have "snd step = snd (tagsistant_RDS_build cmp q s ?db0)"
      unfolding step_def s_def by (simp add: fetch_or_build_miss)
    with build_tables [of cmp q s ?db0] show ?thesis by simp
  qed
qed

lemma step_rebuild:
  fixes cmp q db
  defines "s \<equiv> tagsistant_RDS_build_subquery q"
  defines "step \<equiv> fetch_or_build cmp True q db"
  shows "fst step = autoincrement db + 1"
    and "RDS_catalog (snd step) =
          filter (\<lambda>c. c_subquery c \<noteq> s) (RDS_catalog db)
            @ [\<lparr>c_rds_id = autoincrement db + 1, c_subquery = s, c_expired = 0\<rparr>]"
    and "autoincrement (snd step) = autoincrement db + 1"
    and "set (RDS (snd step)) \<subseteq>
          {r \<in> set (RDS db). r_rds_id r \<notin> c_rds_id ` {c \<in> set (RDS_catalog db). c_subquery c = s}}
            \<union> {r. r_rds_id r = autoincrement db + 1}"
    and "objects (snd step) = objects db \<and> tagging (snd step) = tagging db \<and> tags (snd step) = tags db"
proof -
  define db0 where "db0 = snd (tagsistant_RDS_fetch_id s True db)"
  have st: "step = tagsistant_RDS_build cmp q s db0"
    unfolding step_def s_def db0_def by (rule fetch_or_build_rebuild)
  have f: "RDS_catalog db0 = filter (\<lambda>c. c_subquery c \<noteq> s) (RDS_catalog db)"
    "autoincrement db0 = autoincrement db"
    "RDS db0 = filter (\<lambda>r. r_rds_id r \<notin> set (map c_rds_id (filter (\<lambda>c. c_subquery c = s) (RDS_catalog db)))) (RDS db)"
    "objects db0 = objects db" "tagging db0 = tagging db" "tags db0 = tags db"
    unfolding db0_def by (simp_all add: fetch_id_rebuild)
  show "fst step = autoincrement db + 1"
    unfolding st by (simp add: build_fst f)
  show "RDS_catalog (snd step) =
          filter (\<lambda>c. c_subquery c \<noteq> s) (RDS_catalog db)
            @ [\<lparr>c_rds_id = autoincrement db + 1, c_subquery = s, c_expired = 0\<rparr>]"
    unfolding st by (simp add: build_catalog f)
  show "autoincrement (snd step) = autoincrement db + 1"
    unfolding st by (simp add: build_autoincrement f)
  show "set (RDS (snd step)) \<subseteq>
          {r \<in> set (RDS db). r_rds_id r \<notin> c_rds_id ` {c \<in> set (RDS_catalog db). c_subquery c = s}}
            \<union> {r. r_rds_id r = autoincrement db + 1}"
    unfolding st using build_RDS [of cmp q s db0] by (auto simp: f)
  show "objects (snd step) = objects db \<and> tagging (snd step) = tagging db \<and> tags (snd step) = tags db"
    unfolding st using build_tables [of cmp q s db0] by (simp add: f)
qed

lemma wf_step:
  assumes "catalog_wf db"
  shows "catalog_wf (snd (fetch_or_build cmp rb q db))"
proof (cases rb)
  case True
  have "distinct (map c_rds_id (filter (\<lambda>c. c_subquery c \<noteq> tagsistant_RDS_build_subquery q) (RDS_catalog db)))"
    using assms by (simp add: catalog_wf_def distinct_map_filter)
  with assms True show ?thesis
    by (auto simp: catalog_wf_def list_all_iff step_rebuild)
next
  case False
  with assms show ?thesis
    by (auto simp: catalog_wf_def list_all_iff step_lookup)
qed

lemma autoincrement_step:
  "autoincrement db \<le> autoincrement (snd (fetch_or_build cmp rb q db))"
  by (cases rb) (simp_all add: step_lookup step_rebuild)

lemma wf_run:
  "catalog_wf db \<Longrightarrow> catalog_wf (snd (prepare_run cmp rb chain db))"
proof (induction chain arbitrary: db rule: or_chain.induct)
  case 1
  then show ?case by simp
next
  case (2 q)
  from "2.prems" have "catalog_wf (snd (fetch_or_build cmp rb q db))" by (rule wf_step)
  then have "catalog_wf (snd (prepare_run cmp rb (next_or q) (snd (fetch_or_build cmp rb q db))))"
    by (rule "2.IH")
  then show ?case by (simp only: prepare_run_Some snd_conv)
qed

lemma autoincrement_run:
  "autoincrement db \<le> autoincrement (snd (prepare_run cmp rb chain db))"
proof (induction chain arbitrary: db rule: or_chain.induct)
  case 1
  then show ?case by simp
next
  case (2 q)
  have "autoincrement db \<le> autoincrement (snd (fetch_or_build cmp rb q db))"
    by (rule autoincrement_step)
  also have "\<dots> \<le> autoincrement (snd (prepare_run cmp rb (next_or q) (snd (fetch_or_build cmp rb q db))))"
    by (rule "2.IH")
  finally show ?case by (simp only: prepare_run_Some snd_conv)
qed

subsection \<open>The run without rebuild\<close>

lemma step_lookup_select:
  fixes cmp q db
  assumes "catalog_wf db"
  defines "s \<equiv> tagsistant_RDS_build_subquery q"
  defines "step \<equiv> fetch_or_build cmp False q db"
  shows "sql_select_rds_id s (snd step) = fst step" and "fst step \<noteq> 0"
    and "sql_select_rds_id t db \<noteq> 0 \<Longrightarrow> sql_select_rds_id t (snd step) = sql_select_rds_id t db"
proof -
  from assms(1) have a: "0 \<le> autoincrement db" by (simp add: catalog_wf_def)
  show "sql_select_rds_id s (snd step) = fst step"
  proof (cases "sql_select_rds_id s db \<noteq> 0")
    case True
    then have c: "RDS_catalog (snd step) = RDS_catalog db" and f: "fst step = sql_select_rds_id s db"
      unfolding step_def s_def by (simp_all add: step_lookup)
    from c have "sql_select_rds_id s (snd step) = sql_select_rds_id s db"
      by (rule select_catalog_cong)
    with f show ?thesis by simp
  next
    case False
    then have c: "RDS_catalog (snd step)
        = RDS_catalog db @ [\<lparr>c_rds_id = autoincrement db + 1, c_subquery = s, c_expired = 0\<rparr>]"
      and f: "fst step = autoincrement db + 1"
      unfolding step_def s_def by (simp_all add: step_lookup)
    show ?thesis by (simp add: select_rows c f)
  qed
  show "fst step \<noteq> 0"
    unfolding step_def using a by (simp add: step_lookup)
  show "sql_select_rds_id t (snd step) = sql_select_rds_id t db" if t: "sql_select_rds_id t db \<noteq> 0"
  proof (cases "sql_select_rds_id s db \<noteq> 0")
    case True
    then have "RDS_catalog (snd step) = RDS_catalog db"
      unfolding step_def s_def by (simp add: step_lookup)
    then show ?thesis by (rule select_catalog_cong)
  next
    case False
    then have c: "RDS_catalog (snd step)
        = RDS_catalog db @ [\<lparr>c_rds_id = autoincrement db + 1, c_subquery = s, c_expired = 0\<rparr>]"
      unfolding step_def s_def by (simp add: step_lookup)
    from False t have "s \<noteq> t" by auto
    then have "filter (\<lambda>c. c_subquery c = t) (RDS_catalog (snd step))
        = filter (\<lambda>c. c_subquery c = t) (RDS_catalog db)"
      by (simp add: c)
    then show ?thesis by (rule select_rows_cong)
  qed
qed

lemma lookup_run:
  fixes cmp chain db
  assumes "catalog_wf db"
  defines "run \<equiv> prepare_run cmp False chain db"
  shows "fst run = map (\<lambda>q. sql_select_rds_id (tagsistant_RDS_build_subquery q) (snd run)) (or_chain chain)
    \<and> 0 \<notin> set (fst run)
    \<and> (\<forall>t. sql_select_rds_id t db \<noteq> 0 \<longrightarrow> sql_select_rds_id t (snd run) = sql_select_rds_id t db)"
  using assms(1) unfolding run_def
proof (induction chain arbitrary: db rule: or_chain.induct)
  case 1
  then show ?case by simp
next
  case (2 q)
  define s where "s = tagsistant_RDS_build_subquery q"
  define step where "step = fetch_or_build cmp False q db"
  define rest where "rest = prepare_run cmp False (next_or q) (snd step)"
  have run: "prepare_run cmp False (Some q) db = (fst step # fst rest, snd rest)"
    unfolding rest_def step_def by (rule prepare_run_Some)
  from "2.prems" have wf1: "catalog_wf (snd step)" unfolding step_def by (rule wf_step)
  from "2.prems" have s1: "sql_select_rds_id s (snd step) = fst step" and nz: "fst step \<noteq> 0"
    and keep: "\<And>t. sql_select_rds_id t db \<noteq> 0 \<Longrightarrow> sql_select_rds_id t (snd step) = sql_select_rds_id t db"
    unfolding step_def s_def by (simp_all add: step_lookup_select)
  from "2.IH" [OF wf1] have ih1: "fst rest = map (\<lambda>q. sql_select_rds_id (tagsistant_RDS_build_subquery q) (snd rest)) (or_chain (next_or q))"
    and ih2: "0 \<notin> set (fst rest)"
    and ih3: "\<And>t. sql_select_rds_id t (snd step) \<noteq> 0 \<Longrightarrow> sql_select_rds_id t (snd rest) = sql_select_rds_id t (snd step)"
    unfolding rest_def by blast+
  from s1 nz ih3 have here: "sql_select_rds_id s (snd rest) = fst step" by simp
  have all: "sql_select_rds_id t (snd rest) = sql_select_rds_id t db" if "sql_select_rds_id t db \<noteq> 0" for t
    using that keep [of t] ih3 [of t] by simp
  from here ih1 ih2 nz all show ?case
    unfolding run by (auto simp: s_def)
qed

section \<open>Cache hits\<close>

lemma hit_run:
  assumes "0 \<notin> set (map (\<lambda>q. sql_select_rds_id (tagsistant_RDS_build_subquery q) db) (or_chain chain))"
  shows "prepare_run cmp False chain db =
     (map (\<lambda>q. sql_select_rds_id (tagsistant_RDS_build_subquery q) db) (or_chain chain),
      db\<lparr>statements := statements db @ map select_statement (subqueries chain)\<rparr>)"
  using assms
proof (induction chain arbitrary: db rule: or_chain.induct)
  case 1
  then show ?case by (simp add: subqueries_def)
next
  case (2 q)
  define s where "s = tagsistant_RDS_build_subquery q"
  define db1 where "db1 = db\<lparr>statements := statements db @ [select_statement s]\<rparr>"
  from "2.prems" have nz: "sql_select_rds_id s db \<noteq> 0" by (auto simp: s_def)
  then have step: "fetch_or_build cmp False q db = (sql_select_rds_id s db, db1)"
    unfolding s_def db1_def by (rule fetch_or_build_hit)
  have same: "sql_select_rds_id t db1 = sql_select_rds_id t db" for t
    unfolding db1_def by simp
  from "2.prems" have "0 \<notin> set (map (\<lambda>q. sql_select_rds_id (tagsistant_RDS_build_subquery q) db1) (or_chain (next_or q)))"
    by (simp add: same)
  then have "prepare_run cmp False (next_or q) db1 =
     (map (\<lambda>q. sql_select_rds_id (tagsistant_RDS_build_subquery q) db1) (or_chain (next_or q)),
      db1\<lparr>statements := statements db1 @ map select_statement (subqueries (next_or q))\<rparr>)"
    by (rule "2.IH")
  then show ?case
    by (simp add: prepare_run_Some step same subqueries_def s_def db1_def)
qed

lemma prepare_run_eq:
  "tagsistant_RDS_prepare cmp (Some q) False rb db =
     (Some (drop 2 (concat (map (\<lambda>i. '', '' @ show_int i) (fst (prepare_run cmp rb (Some q) db))))),
      snd (prepare_run cmp rb (Some q) db))"
  by (simp add: tagsistant_RDS_prepare_def prepare_loop_run)

lemma prepare_result:
  assumes "tagsistant_RDS_prepare cmp (Some q) False rb db = (Some F, db')"
  shows "fingerprint_ids F = fst (prepare_run cmp rb (Some q) db)"
    and "db' = snd (prepare_run cmp rb (Some q) db)"
    and "F = join_with '', '' (map show_int (fst (prepare_run cmp rb (Some q) db)))"
proof -
  have "fst (prepare_run cmp rb (Some q) db)
      = fst (fetch_or_build cmp rb q db)
          # fst (prepare_run cmp rb (next_or q) (snd (fetch_or_build cmp rb q db)))"
    by (simp only: prepare_run_Some fst_conv)
  then obtain i ids where run: "fst (prepare_run cmp rb (Some q) db) = i # ids"
    by blast
  from assms have F: "F = drop 2 (concat (map (\<lambda>i. '', '' @ show_int i) (i # ids)))"
    and db': "db' = snd (prepare_run cmp rb (Some q) db)"
    by (simp_all add: prepare_run_eq run)
  from db' show "db' = snd (prepare_run cmp rb (Some q) db)" .
  from F show "fingerprint_ids F = fst (prepare_run cmp rb (Some q) db)"
    by (simp only: fingerprint_ids_def sql_int_list_fingerprint run option.case)
  have "join_with '', '' (map show_int (i # ids)) = show_int i @ concat (map (\<lambda>s. '', '' @ s) (map show_int ids))"
    by (simp only: list.map join_with_concat)
  also have "\<dots> = drop 2 (concat (map (\<lambda>i. '', '' @ show_int i) (i # ids)))"
    by (simp add: o_def)
  finally show "F = join_with '', '' (map show_int (fst (prepare_run cmp rb (Some q) db)))"
    using F run by simp
qed

text \<open>
  C2. On a well-formed catalog, a second \<open>tagsistant_RDS_prepare\<close> of the same
  disjunction without rebuild returns the same fingerprint, hence the same set of
  rds_ids; it executes one lookup per conjunction and nothing else, so that it inserts
  no catalog row and leaves \<open>RDS\<close> as it was.
\<close>

theorem prepare_cache_hit:
  assumes "catalog_wf db"
    and "tagsistant_RDS_prepare cmp (Some q) False False db = (Some F, db1)"
    and "tagsistant_RDS_prepare cmp (Some q) False False db1 = (Some F', db2)"
  shows "F' = F
    \<and> set (fingerprint_ids F') = set (fingerprint_ids F)
    \<and> RDS_catalog db2 = RDS_catalog db1
    \<and> RDS db2 = RDS db1
    \<and> db2 = db1\<lparr>statements := statements db1 @ map select_statement (subqueries (Some q))\<rparr>"
proof -
  let ?sel = "\<lambda>d q. sql_select_rds_id (tagsistant_RDS_build_subquery q) d"
  from assms(2) have db1: "db1 = snd (prepare_run cmp False (Some q) db)"
    and F: "F = join_with '', '' (map show_int (fst (prepare_run cmp False (Some q) db)))"
    by (rule prepare_result)+
  from assms(3) have db2: "db2 = snd (prepare_run cmp False (Some q) db1)"
    and F': "F' = join_with '', '' (map show_int (fst (prepare_run cmp False (Some q) db1)))"
    by (rule prepare_result)+
  from lookup_run [OF assms(1), of cmp "Some q"]
  have ids: "fst (prepare_run cmp False (Some q) db) = map (?sel db1) (or_chain (Some q))"
    and nz: "0 \<notin> set (fst (prepare_run cmp False (Some q) db))"
    unfolding db1 by blast+
  from nz have "0 \<notin> set (map (?sel db1) (or_chain (Some q)))"
    unfolding ids .
  then have second: "prepare_run cmp False (Some q) db1 =
     (map (?sel db1) (or_chain (Some q)),
      db1\<lparr>statements := statements db1 @ map select_statement (subqueries (Some q))\<rparr>)"
    by (rule hit_run)
  from second ids have same: "fst (prepare_run cmp False (Some q) db1) = fst (prepare_run cmp False (Some q) db)"
    by simp
  from second db2 have d: "db2 = db1\<lparr>statements := statements db1 @ map select_statement (subqueries (Some q))\<rparr>"
    by simp
  from same F F' have "F' = F" by simp
  moreover from d have "RDS_catalog db2 = RDS_catalog db1" and "RDS db2 = RDS db1" by simp_all
  ultimately show ?thesis using d by simp
qed

section \<open>Runs of the loop\<close>

subsection \<open>What a run leaves in the tables\<close>

lemma step_catalog_old_or_fresh:
  assumes "c \<in> set (RDS_catalog (snd (fetch_or_build cmp rb q db)))"
  shows "c \<in> set (RDS_catalog db) \<or> (autoincrement db < c_rds_id c \<and> c_expired c = 0)"
  using assms by (cases rb) (auto simp: step_lookup step_rebuild split: if_splits)

lemma step_RDS_old_or_fresh:
  assumes "r \<in> set (RDS (snd (fetch_or_build cmp rb q db)))"
  shows "r \<in> set (RDS db) \<or> autoincrement db < r_rds_id r"
proof (cases rb)
  case True
  with assms step_rebuild(4) [of cmp q db] show ?thesis by auto
next
  case False
  with assms step_lookup(4) [of cmp q db] show ?thesis by auto
qed

lemma run_catalog_old_or_fresh:
  "c \<in> set (RDS_catalog (snd (prepare_run cmp rb chain db))) \<Longrightarrow>
   c \<in> set (RDS_catalog db) \<or> (autoincrement db < c_rds_id c \<and> c_expired c = 0)"
proof (induction chain arbitrary: db rule: or_chain.induct)
  case 1
  then show ?case by simp
next
  case (2 q)
  define db1 where "db1 = snd (fetch_or_build cmp rb q db)"
  from "2.prems" have "c \<in> set (RDS_catalog (snd (prepare_run cmp rb (next_or q) db1)))"
    unfolding db1_def by (simp only: prepare_run_Some snd_conv)
  then have "c \<in> set (RDS_catalog db1) \<or> (autoincrement db1 < c_rds_id c \<and> c_expired c = 0)"
    by (rule "2.IH")
  moreover have "autoincrement db \<le> autoincrement db1"
    unfolding db1_def by (rule autoincrement_step)
  moreover have "c \<in> set (RDS_catalog db1) \<Longrightarrow>
      c \<in> set (RDS_catalog db) \<or> (autoincrement db < c_rds_id c \<and> c_expired c = 0)"
    unfolding db1_def by (rule step_catalog_old_or_fresh)
  ultimately show ?case by auto
qed

lemma run_RDS_old_or_fresh:
  "r \<in> set (RDS (snd (prepare_run cmp rb chain db))) \<Longrightarrow>
   r \<in> set (RDS db) \<or> autoincrement db < r_rds_id r"
proof (induction chain arbitrary: db rule: or_chain.induct)
  case 1
  then show ?case by simp
next
  case (2 q)
  define db1 where "db1 = snd (fetch_or_build cmp rb q db)"
  from "2.prems" have "r \<in> set (RDS (snd (prepare_run cmp rb (next_or q) db1)))"
    unfolding db1_def by (simp only: prepare_run_Some snd_conv)
  then have "r \<in> set (RDS db1) \<or> autoincrement db1 < r_rds_id r"
    by (rule "2.IH")
  moreover have "autoincrement db \<le> autoincrement db1"
    unfolding db1_def by (rule autoincrement_step)
  moreover have "r \<in> set (RDS db1) \<Longrightarrow> r \<in> set (RDS db) \<or> autoincrement db < r_rds_id r"
    unfolding db1_def by (rule step_RDS_old_or_fresh)
  ultimately show ?case by auto
qed

subsection \<open>The run with rebuild\<close>

lemma rebuild_fresh_ids:
  "i \<in> set (fst (prepare_run cmp True chain db)) \<Longrightarrow> autoincrement db < i"
proof (induction chain arbitrary: db rule: or_chain.induct)
  case 1
  then show ?case by simp
next
  case (2 q)
  define db1 where "db1 = snd (fetch_or_build cmp True q db)"
  from "2.prems" have "i = fst (fetch_or_build cmp True q db)
      \<or> i \<in> set (fst (prepare_run cmp True (next_or q) db1))"
    unfolding db1_def by (simp only: prepare_run_Some fst_conv set_ConsD)
  moreover have "fst (fetch_or_build cmp True q db) = autoincrement db + 1"
    by (rule step_rebuild)
  moreover have "autoincrement db1 = autoincrement db + 1"
    unfolding db1_def by (rule step_rebuild)
  moreover have "i \<in> set (fst (prepare_run cmp True (next_or q) db1)) \<Longrightarrow> autoincrement db1 < i"
    by (rule "2.IH")
  ultimately show ?case by auto
qed

lemma wf_bounded:
  "catalog_wf db \<Longrightarrow> c \<in> set (RDS_catalog db) \<Longrightarrow> 0 < c_rds_id c \<and> c_rds_id c \<le> autoincrement db"
  by (simp add: catalog_wf_def list_all_iff)

lemma wf_same_id:
  assumes "catalog_wf db" and "c \<in> set (RDS_catalog db)" and "c' \<in> set (RDS_catalog db)"
    and "c_rds_id c = c_rds_id c'"
  shows "c = c'"
proof -
  from assms(1) have "inj_on c_rds_id (set (RDS_catalog db))"
    by (simp add: catalog_wf_def distinct_map)
  with assms(2-4) show ?thesis by (auto dest: inj_onD)
qed

lemma rebuild_purges:
  assumes "catalog_wf db"
    and "r \<in> set (RDS (snd (prepare_run cmp True chain db)))"
    and "c \<in> set (RDS_catalog db)"
    and "c_subquery c \<in> set (subqueries chain)"
  shows "r_rds_id r \<noteq> c_rds_id c"
  using assms
proof (induction chain arbitrary: db rule: or_chain.induct)
  case 1
  then show ?case by (simp add: subqueries_def)
next
  case (2 q)
  define s where "s = tagsistant_RDS_build_subquery q"
  define db1 where "db1 = snd (fetch_or_build cmp True q db)"
  have wf1: "catalog_wf db1" unfolding db1_def using "2.prems"(1) by (rule wf_step)
  have a1: "autoincrement db1 = autoincrement db + 1"
    unfolding db1_def by (rule step_rebuild)
  have cat1: "RDS_catalog db1 = filter (\<lambda>c. c_subquery c \<noteq> s) (RDS_catalog db)
            @ [\<lparr>c_rds_id = autoincrement db + 1, c_subquery = s, c_expired = 0\<rparr>]"
    unfolding db1_def s_def by (rule step_rebuild)
  have rds1: "set (RDS db1) \<subseteq>
          {r \<in> set (RDS db). r_rds_id r \<notin> c_rds_id ` {c \<in> set (RDS_catalog db). c_subquery c = s}}
            \<union> {r. r_rds_id r = autoincrement db + 1}"
    unfolding db1_def s_def by (rule step_rebuild)
  from "2.prems"(1,3) have bound: "c_rds_id c \<le> autoincrement db" by (simp add: wf_bounded)
  from "2.prems"(2) have fin: "r \<in> set (RDS (snd (prepare_run cmp True (next_or q) db1)))"
    unfolding db1_def by (simp only: prepare_run_Some snd_conv)
  then have "r \<in> set (RDS db1) \<or> autoincrement db1 < r_rds_id r"
    by (rule run_RDS_old_or_fresh)
  then show ?case
  proof
    assume "autoincrement db1 < r_rds_id r"
    with a1 bound show ?thesis by simp
  next
    assume r1: "r \<in> set (RDS db1)"
    show ?thesis
    proof (cases "c_subquery c = s")
      case True
      with r1 rds1 "2.prems"(3) bound show ?thesis by auto
    next
      case False
      with "2.prems"(3) cat1 have c1: "c \<in> set (RDS_catalog db1)" by simp
      from False "2.prems"(4) have "c_subquery c \<in> set (subqueries (next_or q))"
        by (simp add: subqueries_def s_def)
      with wf1 fin c1 show ?thesis by (rule "2.IH")
    qed
  qed
qed

lemma rebuild_catalog:
  assumes "c \<in> set (RDS_catalog (snd (prepare_run cmp True chain db)))"
  shows "(c \<in> set (RDS_catalog db) \<and> c_subquery c \<notin> set (subqueries chain))
     \<or> (autoincrement db < c_rds_id c \<and> c_expired c = 0)"
  using assms
proof (induction chain arbitrary: db rule: or_chain.induct)
  case 1
  then show ?case by (simp add: subqueries_def)
next
  case (2 q)
  define s where "s = tagsistant_RDS_build_subquery q"
  define db1 where "db1 = snd (fetch_or_build cmp True q db)"
  have a1: "autoincrement db1 = autoincrement db + 1"
    unfolding db1_def by (rule step_rebuild)
  have cat1: "RDS_catalog db1 = filter (\<lambda>c. c_subquery c \<noteq> s) (RDS_catalog db)
            @ [\<lparr>c_rds_id = autoincrement db + 1, c_subquery = s, c_expired = 0\<rparr>]"
    unfolding db1_def s_def by (rule step_rebuild)
  from "2.prems" have "c \<in> set (RDS_catalog (snd (prepare_run cmp True (next_or q) db1)))"
    unfolding db1_def by (simp only: prepare_run_Some snd_conv)
  then have "(c \<in> set (RDS_catalog db1) \<and> c_subquery c \<notin> set (subqueries (next_or q)))
     \<or> (autoincrement db1 < c_rds_id c \<and> c_expired c = 0)"
    by (rule "2.IH")
  with a1 cat1 show ?case
    by (auto simp: subqueries_def s_def)
qed

section \<open>Invalidation and rebuild\<close>

subsection \<open>tagsistant_RDS_invalidate\<close>

lemma invalidate_eq:
  "tagsistant_RDS_invalidate fp db =
     db\<lparr>RDS_catalog :=
          map (\<lambda>c. if c_rds_id c \<in> set (fingerprint_ids (cstr fp)) then c\<lparr>c_expired := 1\<rparr> else c)
              (RDS_catalog db),
        statements := statements db @
          [''update RDS_catalog set expired = 1 where rds_id in ('' @ cstr fp @ '')'']\<rparr>"
  by (cases "sql_int_list (cstr fp)")
     (simp_all add: tagsistant_RDS_invalidate_def tagsistant_query_def sql_update_expired_def
        fingerprint_ids_def)

lemma invalidate_fields:
  "RDS (tagsistant_RDS_invalidate fp db) = RDS db"
  "autoincrement (tagsistant_RDS_invalidate fp db) = autoincrement db"
  "map c_rds_id (RDS_catalog (tagsistant_RDS_invalidate fp db)) = map c_rds_id (RDS_catalog db)"
  "map c_subquery (RDS_catalog (tagsistant_RDS_invalidate fp db)) = map c_subquery (RDS_catalog db)"
  by (simp_all add: invalidate_eq o_def if_distrib cong: if_cong)

lemma invalidate_wf:
  assumes "catalog_wf db"
  shows "catalog_wf (tagsistant_RDS_invalidate fp db)"
proof -
  let ?db = "tagsistant_RDS_invalidate fp db"
  have "list_all (\<lambda>c. 0 < c_rds_id c \<and> c_rds_id c \<le> autoincrement db) (RDS_catalog ?db)
      = list_all (\<lambda>i. 0 < i \<and> i \<le> autoincrement db) (map c_rds_id (RDS_catalog ?db))"
    by (simp add: list_all_iff)
  also have "\<dots> = list_all (\<lambda>i. 0 < i \<and> i \<le> autoincrement db) (map c_rds_id (RDS_catalog db))"
    by (simp only: invalidate_fields)
  also have "\<dots> = list_all (\<lambda>c. 0 < c_rds_id c \<and> c_rds_id c \<le> autoincrement db) (RDS_catalog db)"
    by (simp add: list_all_iff)
  finally show ?thesis
    using assms by (simp add: catalog_wf_def invalidate_fields)
qed

lemma invalidate_row:
  assumes "c \<in> set (RDS_catalog db)"
  shows "\<exists>c' \<in> set (RDS_catalog (tagsistant_RDS_invalidate fp db)).
           c_rds_id c' = c_rds_id c \<and> c_subquery c' = c_subquery c
           \<and> (c_expired c' = c_expired c \<or> c_expired c' = 1)"
proof -
  let ?raise = "\<lambda>c. if c_rds_id c \<in> set (fingerprint_ids (cstr fp)) then c\<lparr>c_expired := 1\<rparr> else c"
  from assms have "?raise c \<in> set (RDS_catalog (tagsistant_RDS_invalidate fp db))"
    by (simp add: invalidate_eq)
  moreover have "c_rds_id (?raise c) = c_rds_id c \<and> c_subquery (?raise c) = c_subquery c
           \<and> (c_expired (?raise c) = c_expired c \<or> c_expired (?raise c) = 1)"
    by simp
  ultimately show ?thesis by blast
qed

lemma invalidate_row_back:
  assumes "c' \<in> set (RDS_catalog (tagsistant_RDS_invalidate fp db))"
  shows "\<exists>c \<in> set (RDS_catalog db).
           c_rds_id c' = c_rds_id c \<and> c_subquery c' = c_subquery c
           \<and> (c_expired c' = c_expired c \<or> c_expired c' = 1)"
  using assms by (auto simp: invalidate_eq)

subsection \<open>Rebuild after invalidation\<close>

lemma lookup_run_rows:
  assumes "catalog_wf db" and "i \<in> set (fst (prepare_run cmp False chain db))"
  shows "\<exists>c \<in> set (RDS_catalog (snd (prepare_run cmp False chain db))).
           c_rds_id c = i \<and> c_subquery c \<in> set (subqueries chain)"
proof -
  let ?db' = "snd (prepare_run cmp False chain db)"
  from lookup_run [OF assms(1), of cmp chain]
  have ids: "fst (prepare_run cmp False chain db)
      = map (\<lambda>q. sql_select_rds_id (tagsistant_RDS_build_subquery q) ?db') (or_chain chain)"
    and nz: "0 \<notin> set (fst (prepare_run cmp False chain db))" by blast+
  from assms(2) ids obtain q where q: "q \<in> set (or_chain chain)"
    and i: "i = sql_select_rds_id (tagsistant_RDS_build_subquery q) ?db'" by auto
  from nz assms(2) have "i \<noteq> 0" by auto
  with i have "sql_select_rds_id (tagsistant_RDS_build_subquery q) ?db' \<noteq> 0" by simp
  then have "\<exists>c \<in> set (RDS_catalog ?db').
      c_rds_id c = sql_select_rds_id (tagsistant_RDS_build_subquery q) ?db'
      \<and> c_subquery c = tagsistant_RDS_build_subquery q"
    by (rule select_nonzero_row)
  with i q show ?thesis by (auto simp: subqueries_def)
qed

text \<open>
  C3. \<open>tagsistant_RDS_fetch_id\<close> with rebuild set deletes the RDS rows of the catalog
  rows with the subquery, then those catalog rows, then selects, and returns 0.
  Consequently, when a fingerprint prepared on a well-formed catalog is invalidated and
  the disjunction is prepared again with rebuild set, no row of \<open>RDS\<close> and no row of
  the catalog carries one of the old rds_ids, and the new fingerprint names one freshly
  assigned id per conjunction, each above the counter and none among the old ones.
\<close>

theorem rebuild_purges_old_rds:
  assumes "catalog_wf db"
    and "tagsistant_RDS_prepare cmp (Some q) False False db = (Some F, db1)"
    and "tagsistant_RDS_prepare cmp (Some q) False True (tagsistant_RDS_invalidate (Some F) db1)
           = (Some F', db3)"
  shows "tagsistant_RDS_fetch_id s True d =
           (0, d\<lparr>RDS := filter
                    (\<lambda>r. r_rds_id r \<notin> set (map c_rds_id (filter (\<lambda>c. c_subquery c = s) (RDS_catalog d))))
                    (RDS d),
                 RDS_catalog := filter (\<lambda>c. c_subquery c \<noteq> s) (RDS_catalog d),
                 statements := statements d @
                   [''delete from RDS where rds_id = (select rds_id from RDS_catalog where subquery = ''
                      @ sq @ s @ sq @ '')'',
                    ''delete from RDS_catalog where subquery = '' @ sq @ s @ sq,
                    select_statement s]\<rparr>)
    \<and> (\<forall>r \<in> set (RDS db3). r_rds_id r \<notin> set (fingerprint_ids F))
    \<and> (\<forall>c \<in> set (RDS_catalog db3). c_rds_id c \<notin> set (fingerprint_ids F))
    \<and> set (fingerprint_ids F') \<inter> set (fingerprint_ids F) = {}
    \<and> (\<forall>i \<in> set (fingerprint_ids F'). autoincrement db1 < i)
    \<and> length (fingerprint_ids F') = length (or_chain (Some q))"
proof -
  define db2 where "db2 = tagsistant_RDS_invalidate (Some F) db1"
  from assms(2) have F: "fingerprint_ids F = fst (prepare_run cmp False (Some q) db)"
    and db1: "db1 = snd (prepare_run cmp False (Some q) db)"
    by (rule prepare_result)+
  from assms(3) have F': "fingerprint_ids F' = fst (prepare_run cmp True (Some q) db2)"
    and db3: "db3 = snd (prepare_run cmp True (Some q) db2)"
    unfolding db2_def by (rule prepare_result)+
  from assms(1) have wf1: "catalog_wf db1" unfolding db1 by (rule wf_run)
  then have wf2: "catalog_wf db2" unfolding db2_def by (rule invalidate_wf)
  have a2: "autoincrement db2 = autoincrement db1"
    unfolding db2_def by (rule invalidate_fields)
  have old: "\<exists>c \<in> set (RDS_catalog db2). c_rds_id c = i \<and> c_subquery c \<in> set (subqueries (Some q))"
    if "i \<in> set (fingerprint_ids F)" for i
  proof -
    from that assms(1) have "\<exists>c \<in> set (RDS_catalog db1). c_rds_id c = i \<and> c_subquery c \<in> set (subqueries (Some q))"
      unfolding F db1 by (intro lookup_run_rows)
    then obtain c where c: "c \<in> set (RDS_catalog db1)" "c_rds_id c = i"
      "c_subquery c \<in> set (subqueries (Some q))" by blast
    from invalidate_row [OF c(1), of "Some F"] c(2,3) show ?thesis
      unfolding db2_def by auto
  qed
  have p1: "r_rds_id r \<notin> set (fingerprint_ids F)" if r: "r \<in> set (RDS db3)" for r
  proof
    assume "r_rds_id r \<in> set (fingerprint_ids F)"
    then obtain c where c: "c \<in> set (RDS_catalog db2)" "c_rds_id c = r_rds_id r"
      "c_subquery c \<in> set (subqueries (Some q))" using old by blast
    from wf2 r [unfolded db3] c(1,3) have "r_rds_id r \<noteq> c_rds_id c" by (rule rebuild_purges)
    with c(2) show False by simp
  qed
  have p2: "c_rds_id c' \<notin> set (fingerprint_ids F)" if c': "c' \<in> set (RDS_catalog db3)" for c'
  proof
    assume "c_rds_id c' \<in> set (fingerprint_ids F)"
    then obtain c where c: "c \<in> set (RDS_catalog db2)" "c_rds_id c = c_rds_id c'"
      "c_subquery c \<in> set (subqueries (Some q))" using old by blast
    from wf2 c(1) have bound: "c_rds_id c \<le> autoincrement db2" by (simp add: wf_bounded)
    from c' [unfolded db3] have "(c' \<in> set (RDS_catalog db2) \<and> c_subquery c' \<notin> set (subqueries (Some q)))
        \<or> (autoincrement db2 < c_rds_id c' \<and> c_expired c' = 0)"
      by (rule rebuild_catalog)
    then show False
    proof
      assume h: "c' \<in> set (RDS_catalog db2) \<and> c_subquery c' \<notin> set (subqueries (Some q))"
      with wf2 c(1,2) have "c = c'" by (intro wf_same_id [of db2]) simp_all
      with h c(3) show False by simp
    next
      assume "autoincrement db2 < c_rds_id c' \<and> c_expired c' = 0"
      with bound c(2) show False by simp
    qed
  qed
  have fresh: "autoincrement db1 < i" if "i \<in> set (fingerprint_ids F')" for i
    using that rebuild_fresh_ids [of i cmp "Some q" db2] unfolding F' a2 by simp
  have p3: "set (fingerprint_ids F') \<inter> set (fingerprint_ids F) = {}"
  proof (rule ccontr)
    assume "set (fingerprint_ids F') \<inter> set (fingerprint_ids F) \<noteq> {}"
    then obtain i where i': "i \<in> set (fingerprint_ids F')" and i: "i \<in> set (fingerprint_ids F)"
      by blast
    from i obtain c where c: "c \<in> set (RDS_catalog db2)" "c_rds_id c = i" using old by blast
    from wf2 c(1) have "c_rds_id c \<le> autoincrement db2" by (simp add: wf_bounded)
    with fresh [OF i'] c(2) a2 show False by simp
  qed
  have p4: "length (fingerprint_ids F') = length (or_chain (Some q))"
    unfolding F' by (rule length_prepare_run)
  from p1 p2 p3 fresh p4 show ?thesis
    by (simp add: fetch_id_rebuild)
qed

subsection \<open>The entries a fingerprint names\<close>

lemma rebuild_rows_stable:
  "t \<notin> set (subqueries chain) \<Longrightarrow>
   filter (\<lambda>c. c_subquery c = t) (RDS_catalog (snd (prepare_run cmp True chain db)))
     = filter (\<lambda>c. c_subquery c = t) (RDS_catalog db)"
proof (induction chain arbitrary: db rule: or_chain.induct)
  case 1
  then show ?case by simp
next
  case (2 q)
  define s where "s = tagsistant_RDS_build_subquery q"
  define db1 where "db1 = snd (fetch_or_build cmp True q db)"
  have cat1: "RDS_catalog db1 = filter (\<lambda>c. c_subquery c \<noteq> s) (RDS_catalog db)
            @ [\<lparr>c_rds_id = autoincrement db + 1, c_subquery = s, c_expired = 0\<rparr>]"
    unfolding db1_def s_def by (rule step_rebuild)
  from "2.prems" have ts: "t \<noteq> s" and rest: "t \<notin> set (subqueries (next_or q))"
    by (auto simp: subqueries_def s_def)
  from rest have "filter (\<lambda>c. c_subquery c = t) (RDS_catalog (snd (prepare_run cmp True (next_or q) db1)))
     = filter (\<lambda>c. c_subquery c = t) (RDS_catalog db1)"
    by (rule "2.IH")
  also have "\<dots> = filter (\<lambda>c. c_subquery c = t) (RDS_catalog db)"
    using ts by (auto simp: cat1 intro: filter_cong)
  finally show ?case
    unfolding db1_def by (simp only: prepare_run_Some snd_conv)
qed

lemma rebuild_run_select:
  assumes "distinct (subqueries chain)"
  shows "fst (prepare_run cmp True chain db)
     = map (\<lambda>q. sql_select_rds_id (tagsistant_RDS_build_subquery q) (snd (prepare_run cmp True chain db)))
         (or_chain chain)
   \<and> (\<forall>i \<in> set (fst (prepare_run cmp True chain db)).
        \<exists>c \<in> set (RDS_catalog (snd (prepare_run cmp True chain db))). c_rds_id c = i \<and> c_expired c = 0)"
  using assms
proof (induction chain arbitrary: db rule: or_chain.induct)
  case 1
  then show ?case by simp
next
  case (2 q)
  define s where "s = tagsistant_RDS_build_subquery q"
  define db1 where "db1 = snd (fetch_or_build cmp True q db)"
  define fin where "fin = snd (prepare_run cmp True (next_or q) db1)"
  define new where "new = \<lparr>c_rds_id = autoincrement db + 1, c_subquery = s, c_expired = 0\<rparr>"
  have run: "prepare_run cmp True (Some q) db
      = (fst (fetch_or_build cmp True q db) # fst (prepare_run cmp True (next_or q) db1), fin)"
    unfolding fin_def db1_def by (rule prepare_run_Some)
  have i: "fst (fetch_or_build cmp True q db) = autoincrement db + 1"
    by (rule step_rebuild)
  have cat1: "RDS_catalog db1 = filter (\<lambda>c. c_subquery c \<noteq> s) (RDS_catalog db) @ [new]"
    unfolding db1_def s_def new_def by (rule step_rebuild)
  from "2.prems" have notin: "s \<notin> set (subqueries (next_or q))"
    and d: "distinct (subqueries (next_or q))"
    by (simp_all add: subqueries_def s_def)
  from notin have "filter (\<lambda>c. c_subquery c = s) (RDS_catalog fin)
      = filter (\<lambda>c. c_subquery c = s) (RDS_catalog db1)"
    unfolding fin_def by (rule rebuild_rows_stable)
  also have "\<dots> = [new]"
    by (simp add: cat1 new_def)
  finally have rows: "filter (\<lambda>c. c_subquery c = s) (RDS_catalog fin) = [new]" .
  then have sel: "sql_select_rds_id s fin = autoincrement db + 1"
    by (simp add: select_rows new_def)
  have "new \<in> set (filter (\<lambda>c. c_subquery c = s) (RDS_catalog fin))"
    unfolding rows by simp
  then have "new \<in> set (RDS_catalog fin)" by simp
  moreover have "c_rds_id new = autoincrement db + 1 \<and> c_expired new = 0"
    by (simp add: new_def)
  ultimately have here: "\<exists>c \<in> set (RDS_catalog fin). c_rds_id c = autoincrement db + 1 \<and> c_expired c = 0"
    by blast
  from "2.IH" [OF d, of db1]
  have ih1: "fst (prepare_run cmp True (next_or q) db1)
      = map (\<lambda>q. sql_select_rds_id (tagsistant_RDS_build_subquery q) fin) (or_chain (next_or q))"
    and ih2: "\<forall>i \<in> set (fst (prepare_run cmp True (next_or q) db1)).
        \<exists>c \<in> set (RDS_catalog fin). c_rds_id c = i \<and> c_expired c = 0"
    unfolding fin_def by blast+
  from sel here ih1 ih2 show ?case
    unfolding run i by (simp add: s_def)
qed

lemma lookup_run_keeps:
  "c \<in> set (RDS_catalog db) \<Longrightarrow> c \<in> set (RDS_catalog (snd (prepare_run cmp False chain db)))"
proof (induction chain arbitrary: db rule: or_chain.induct)
  case 1
  then show ?case by simp
next
  case (2 q)
  from "2.prems" have "c \<in> set (RDS_catalog (snd (fetch_or_build cmp False q db)))"
    by (simp add: step_lookup)
  then have "c \<in> set (RDS_catalog (snd (prepare_run cmp False (next_or q) (snd (fetch_or_build cmp False q db)))))"
    by (rule "2.IH")
  then show ?case by (simp only: prepare_run_Some snd_conv)
qed

lemma digit_char_nonzero: "0 < d \<Longrightarrow> d < 10 \<Longrightarrow> digit_char d \<in> set ''123456789''"
proof -
  assume "0 < d" "d < 10"
  then have "d = 1 \<or> d = 2 \<or> d = 3 \<or> d = 4 \<or> d = 5 \<or> d = 6 \<or> d = 7 \<or> d = 8 \<or> d = 9"
    by arith
  then show ?thesis
    by (elim disjE) (simp_all add: digit_char_def)
qed

lemma show_nat_hd_nonzero: "0 < n \<Longrightarrow> hd (show_nat n) \<in> set ''123456789''"
proof (induction n rule: show_nat.induct)
  case (1 n)
  show ?case
  proof (cases "n < 10")
    case True
    with "1.prems" have "digit_char n \<in> set ''123456789''" by (intro digit_char_nonzero)
    with True show ?thesis by (subst show_nat.simps) simp
  next
    case False
    then have "0 < n div 10" by simp
    with False 1 have "hd (show_nat (n div 10)) \<in> set ''123456789''" by simp
    with False show ?thesis
      by (subst show_nat.simps) (simp add: show_nat_not_Nil)
  qed
qed

lemma show_int_decimal: "0 < i \<Longrightarrow> is_decimal_id (show_int i)"
proof -
  assume pos: "0 < i"
  then have s: "show_int i = show_nat (nat i)" by (simp add: show_int_def)
  from pos have "hd (show_nat (nat i)) \<in> set ''123456789''"
    by (intro show_nat_hd_nonzero) simp
  moreover have "list_all (\<lambda>c. c \<in> set ''0123456789'') (show_nat (nat i))"
    using show_nat_digits [of "nat i"] unfolding list_all_iff by blast
  ultimately show ?thesis
    unfolding is_decimal_id_def s using show_nat_not_Nil [of "nat i"] by blast
qed

lemma prepared_ids_positive:
  assumes "catalog_wf db" and "i \<in> set (fst (prepare_run cmp rb chain db))"
  shows "0 < i"
proof (cases rb)
  case True
  with assms(2) have "autoincrement db < i" by (auto dest: rebuild_fresh_ids)
  with assms(1) show ?thesis by (simp add: catalog_wf_def)
next
  case False
  with assms have "\<exists>c \<in> set (RDS_catalog (snd (prepare_run cmp False chain db))).
           c_rds_id c = i \<and> c_subquery c \<in> set (subqueries chain)"
    by (intro lookup_run_rows) simp_all
  moreover from assms(1) have "catalog_wf (snd (prepare_run cmp False chain db))" by (rule wf_run)
  ultimately show ?thesis by (auto dest: wf_bounded)
qed

lemma lookup_run_entries:
  "i \<in> set (fst (prepare_run cmp False chain db)) \<Longrightarrow>
   \<exists>c \<in> set (RDS_catalog (snd (prepare_run cmp False chain db))).
     c_rds_id c = i \<and> (c_expired c = 0 \<or> c \<in> set (RDS_catalog db))"
proof (induction chain arbitrary: db rule: or_chain.induct)
  case 1
  then show ?case by simp
next
  case (2 q)
  define s where "s = tagsistant_RDS_build_subquery q"
  define step where "step = fetch_or_build cmp False q db"
  define fin where "fin = snd (prepare_run cmp False (next_or q) (snd step))"
  define new where "new = \<lparr>c_rds_id = autoincrement db + 1, c_subquery = s, c_expired = 0\<rparr>"
  have run: "prepare_run cmp False (Some q) db
      = (fst step # fst (prepare_run cmp False (next_or q) (snd step)), fin)"
    unfolding fin_def step_def by (rule prepare_run_Some)
  have i0: "fst step = (if sql_select_rds_id s db \<noteq> 0 then sql_select_rds_id s db else autoincrement db + 1)"
    and cat1: "RDS_catalog (snd step) =
          (if sql_select_rds_id s db \<noteq> 0 then RDS_catalog db else RDS_catalog db @ [new])"
    unfolding step_def s_def new_def by (rule step_lookup)+
  have keeps: "c \<in> set (RDS_catalog (snd step)) \<Longrightarrow> c \<in> set (RDS_catalog fin)" for c
    unfolding fin_def by (rule lookup_run_keeps)
  from "2.prems" have "i = fst step \<or> i \<in> set (fst (prepare_run cmp False (next_or q) (snd step)))"
    unfolding run by simp
  then have "\<exists>c \<in> set (RDS_catalog fin). c_rds_id c = i \<and> (c_expired c = 0 \<or> c \<in> set (RDS_catalog db))"
  proof
    assume i: "i = fst step"
    show ?thesis
    proof (cases "sql_select_rds_id s db \<noteq> 0")
      case True
      then have "\<exists>c \<in> set (RDS_catalog db). c_rds_id c = sql_select_rds_id s db \<and> c_subquery c = s"
        by (rule select_nonzero_row)
      then obtain c where c: "c \<in> set (RDS_catalog db)" "c_rds_id c = sql_select_rds_id s db"
        by blast
      from c(1) True cat1 have "c \<in> set (RDS_catalog (snd step))" by simp
      then have "c \<in> set (RDS_catalog fin)" by (rule keeps)
      with c i i0 True show ?thesis by auto
    next
      case False
      with cat1 have "new \<in> set (RDS_catalog (snd step))" by simp
      then have "new \<in> set (RDS_catalog fin)" by (rule keeps)
      moreover from False i i0 have "c_rds_id new = i \<and> c_expired new = 0"
        by (simp add: new_def)
      ultimately show ?thesis by blast
    qed
  next
    assume "i \<in> set (fst (prepare_run cmp False (next_or q) (snd step)))"
    then have "\<exists>c \<in> set (RDS_catalog fin). c_rds_id c = i \<and> (c_expired c = 0 \<or> c \<in> set (RDS_catalog (snd step)))"
      unfolding fin_def by (rule "2.IH")
    then obtain c where c: "c \<in> set (RDS_catalog fin)" "c_rds_id c = i"
      "c_expired c = 0 \<or> c \<in> set (RDS_catalog (snd step))" by blast
    from c(3) have "c_expired c = 0 \<or> c \<in> set (RDS_catalog db)"
    proof
      assume "c_expired c = 0"
      then show ?thesis by simp
    next
      assume "c \<in> set (RDS_catalog (snd step))"
      with cat1 have "c \<in> set (RDS_catalog db) \<or> c = new"
        by (auto split: if_splits)
      then show ?thesis by (auto simp: new_def)
    qed
    with c(1,2) show ?thesis by blast
  qed
  then show ?case unfolding run by simp
qed

text \<open>
  C5 (as the code has it). In any catalog state, and with pairwise distinct
  subqueries when rebuild is set, every rds_id of the fingerprint names a catalog entry
  at the moment \<open>tagsistant_RDS_prepare\<close> returns. The entry's expired flag is 0 when
  the call built it, which with rebuild set is every entry; without rebuild an entry
  that was in the catalog before the call is returned as it is, whatever its flag.
\<close>

theorem fingerprint_names_entries:
  assumes "rebuild_expired_RDS \<longrightarrow> distinct (subqueries (Some q))"
    and "tagsistant_RDS_prepare cmp (Some q) False rebuild_expired_RDS db = (Some F, db')"
  shows "\<forall>i \<in> set (fingerprint_ids F).
           \<exists>c \<in> set (RDS_catalog db').
             c_rds_id c = i
             \<and> (c_expired c = 0 \<or> (\<not> rebuild_expired_RDS \<and> c \<in> set (RDS_catalog db)))"
proof
  fix i assume i: "i \<in> set (fingerprint_ids F)"
  from assms(2) have F: "fingerprint_ids F = fst (prepare_run cmp rebuild_expired_RDS (Some q) db)"
    and db': "db' = snd (prepare_run cmp rebuild_expired_RDS (Some q) db)"
    by (rule prepare_result)+
  show "\<exists>c \<in> set (RDS_catalog db').
             c_rds_id c = i
             \<and> (c_expired c = 0 \<or> (\<not> rebuild_expired_RDS \<and> c \<in> set (RDS_catalog db)))"
  proof (cases rebuild_expired_RDS)
    case True
    with assms(1) have "distinct (subqueries (Some q))" by simp
    then have "\<forall>i \<in> set (fst (prepare_run cmp True (Some q) db)).
        \<exists>c \<in> set (RDS_catalog (snd (prepare_run cmp True (Some q) db))). c_rds_id c = i \<and> c_expired c = 0"
      using rebuild_run_select [of "Some q" cmp db] by blast
    moreover from True i have "i \<in> set (fst (prepare_run cmp True (Some q) db))"
      unfolding F by simp
    ultimately have "\<exists>c \<in> set (RDS_catalog (snd (prepare_run cmp True (Some q) db))).
        c_rds_id c = i \<and> c_expired c = 0" by blast
    moreover from True have "db' = snd (prepare_run cmp True (Some q) db)"
      unfolding db' by simp
    ultimately show ?thesis by blast
  next
    case False
    then have rb: "rebuild_expired_RDS = False" by simp
    from i have "\<exists>c \<in> set (RDS_catalog (snd (prepare_run cmp False (Some q) db))).
           c_rds_id c = i \<and> (c_expired c = 0 \<or> c \<in> set (RDS_catalog db))"
      unfolding F rb by (rule lookup_run_entries)
    moreover have "db' = snd (prepare_run cmp False (Some q) db)"
      unfolding db' rb by simp
    ultimately show ?thesis using False by blast
  qed
qed

text \<open>
  C6 (as the code has it). The fingerprint is the decimal rds_ids joined by a comma
  followed by a blank, one id per conjunction in link order. On a well-formed catalog
  each id is a positive numeral without padding, and (with pairwise distinct subqueries
  when rebuild is set) the id listed for a conjunction is the one the catalog holds for
  its subquery when the call returns.
\<close>

theorem fingerprint_format:
  assumes "tagsistant_RDS_prepare cmp (Some q) False rebuild_expired_RDS db = (Some F, db')"
  shows "F = join_with '', '' (map show_int (fingerprint_ids F))
    \<and> length (fingerprint_ids F) = length (or_chain (Some q))
    \<and> (catalog_wf db \<longrightarrow> list_all is_decimal_id (map show_int (fingerprint_ids F)))
    \<and> (catalog_wf db \<and> (rebuild_expired_RDS \<longrightarrow> distinct (subqueries (Some q))) \<longrightarrow>
         fingerprint_ids F =
           map (\<lambda>c. sql_select_rds_id (tagsistant_RDS_build_subquery c) db') (or_chain (Some q)))"
proof -
  from assms have F: "fingerprint_ids F = fst (prepare_run cmp rebuild_expired_RDS (Some q) db)"
    and db': "db' = snd (prepare_run cmp rebuild_expired_RDS (Some q) db)"
    and j: "F = join_with '', '' (map show_int (fst (prepare_run cmp rebuild_expired_RDS (Some q) db)))"
    by (rule prepare_result)+
  from j F have p1: "F = join_with '', '' (map show_int (fingerprint_ids F))" by simp
  have p2: "length (fingerprint_ids F) = length (or_chain (Some q))"
    unfolding F by (rule length_prepare_run)
  have p3: "list_all is_decimal_id (map show_int (fingerprint_ids F))" if wf: "catalog_wf db"
  proof -
    have "is_decimal_id (show_int i)" if "i \<in> set (fingerprint_ids F)" for i
    proof -
      from wf that have "0 < i" unfolding F by (rule prepared_ids_positive)
      then show ?thesis by (rule show_int_decimal)
    qed
    then show ?thesis by (simp add: list_all_iff)
  qed
  have p4: "fingerprint_ids F =
           map (\<lambda>c. sql_select_rds_id (tagsistant_RDS_build_subquery c) db') (or_chain (Some q))"
    if h: "catalog_wf db \<and> (rebuild_expired_RDS \<longrightarrow> distinct (subqueries (Some q)))"
  proof (cases rebuild_expired_RDS)
    case True
    with h have "distinct (subqueries (Some q))" by simp
    then have "fst (prepare_run cmp True (Some q) db)
        = map (\<lambda>c. sql_select_rds_id (tagsistant_RDS_build_subquery c) (snd (prepare_run cmp True (Some q) db)))
            (or_chain (Some q))"
      using rebuild_run_select [of "Some q" cmp db] by blast
    with True show ?thesis unfolding F db' by simp
  next
    case False
    from h have "catalog_wf db" by simp
    then have "fst (prepare_run cmp False (Some q) db)
        = map (\<lambda>c. sql_select_rds_id (tagsistant_RDS_build_subquery c) (snd (prepare_run cmp False (Some q) db)))
            (or_chain (Some q))"
      using lookup_run [of db cmp "Some q"] by blast
    with False show ?thesis unfolding F db' by simp
  qed
  from p1 p2 p3 p4 show ?thesis by blast
qed

subsection \<open>Histories\<close>

lemma evolves_refl: "catalog_evolves db db"
  unfolding catalog_evolves_def by blast

lemma evolves_trans:
  assumes "catalog_evolves a b" and "catalog_evolves b c"
  shows "catalog_evolves a c"
proof -
  from assms have le: "autoincrement a \<le> autoincrement b" "autoincrement b \<le> autoincrement c"
    unfolding catalog_evolves_def by blast+
  have "autoincrement a < c_rds_id z
      \<or> (\<exists>x \<in> set (RDS_catalog a). c_rds_id z = c_rds_id x \<and> (c_expired z = c_expired x \<or> c_expired z = 1))"
    if z: "z \<in> set (RDS_catalog c)" for z
  proof -
    from assms(2) z have "autoincrement b < c_rds_id z
      \<or> (\<exists>y \<in> set (RDS_catalog b). c_rds_id z = c_rds_id y \<and> (c_expired z = c_expired y \<or> c_expired z = 1))"
      unfolding catalog_evolves_def by blast
    then show ?thesis
    proof
      assume "autoincrement b < c_rds_id z"
      with le(1) show ?thesis by simp
    next
      assume "\<exists>y \<in> set (RDS_catalog b). c_rds_id z = c_rds_id y \<and> (c_expired z = c_expired y \<or> c_expired z = 1)"
      then obtain y where y: "y \<in> set (RDS_catalog b)" "c_rds_id z = c_rds_id y"
        "c_expired z = c_expired y \<or> c_expired z = 1" by blast
      from assms(1) y(1) have "autoincrement a < c_rds_id y
        \<or> (\<exists>x \<in> set (RDS_catalog a). c_rds_id y = c_rds_id x \<and> (c_expired y = c_expired x \<or> c_expired y = 1))"
        unfolding catalog_evolves_def by blast
      with y(2,3) show ?thesis by auto
    qed
  qed
  with le show ?thesis unfolding catalog_evolves_def by auto
qed

lemma prepare_snd:
  "snd (tagsistant_RDS_prepare cmp query is_all_path rb db) =
     (if is_all_path then db else snd (prepare_run cmp rb query db))"
proof (cases query)
  case None
  then show ?thesis by (simp add: tagsistant_RDS_prepare_def)
next
  case (Some q)
  show ?thesis
  proof (cases is_all_path)
    case True
    then show ?thesis by (simp add: tagsistant_RDS_prepare_def)
  next
    case False
    then have "is_all_path = False" by simp
    then show ?thesis unfolding Some by (simp add: prepare_run_eq)
  qed
qed

lemma run_evolves: "catalog_evolves db (snd (prepare_run cmp rb chain db))"
  unfolding catalog_evolves_def
  using autoincrement_run [of db cmp rb chain] run_catalog_old_or_fresh [of _ cmp rb chain db]
  by blast

lemma invalidate_evolves: "catalog_evolves db (tagsistant_RDS_invalidate fp db)"
  unfolding catalog_evolves_def
  using invalidate_row_back [of _ fp db] by (auto simp: invalidate_fields)

lemma call_evolves: "catalog_evolves db (run_call call db)"
proof (cases call)
  case (Prepare cmp query is_all_path rb)
  then show ?thesis
    by (simp add: prepare_snd evolves_refl run_evolves)
next
  case (Invalidate fp)
  then show ?thesis by (simp add: invalidate_evolves)
qed

lemma calls_evolve: "catalog_evolves db (run_calls calls db)"
proof (induction calls arbitrary: db)
  case Nil
  then show ?case by (simp add: evolves_refl)
next
  case (Cons call calls)
  have "catalog_evolves db (run_call call db)" by (rule call_evolves)
  moreover have "catalog_evolves (run_call call db) (run_calls calls (run_call call db))"
    by (rule Cons.IH)
  ultimately show ?case by (simp add: evolves_trans)
qed

lemma call_keeps:
  assumes "\<not> call_rebuilds call" and "c \<in> set (RDS_catalog db)"
  shows "c_rds_id c \<in> set (map c_rds_id (RDS_catalog (run_call call db)))"
proof (cases call)
  case (Prepare cmp query is_all_path rb)
  show ?thesis
  proof (cases is_all_path)
    case True
    with assms(2) show ?thesis unfolding Prepare by (simp add: prepare_snd)
  next
    case False
    with assms(1) have "rb = False" unfolding Prepare by simp
    with False assms(2) show ?thesis
      unfolding Prepare by (simp add: prepare_snd lookup_run_keeps)
  qed
next
  case (Invalidate fp)
  from assms(2) have "c_rds_id c \<in> set (map c_rds_id (RDS_catalog db))" by simp
  then show ?thesis unfolding Invalidate by (simp only: run_call.simps invalidate_fields)
qed

text \<open>
  C7. \<open>tagsistant_RDS_invalidate\<close> executes the one UPDATE statement: it sets the
  flag of the catalog rows whose rds_id the fingerprint lists and changes nothing else,
  so that \<open>RDS\<close> and the ids and subqueries of the catalog stay as they are. Over any
  history of prepare and invalidate calls on a well-formed catalog, an entry whose flag
  is 1 keeps the flag 1 for as long as an entry with its rds_id exists; and a call that
  is not a prepare with rebuild set removes no entry.
\<close>

theorem invalidate_sets_flag_only:
  "tagsistant_RDS_invalidate fp db =
     db\<lparr>RDS_catalog :=
          map (\<lambda>c. if c_rds_id c \<in> set (fingerprint_ids (cstr fp)) then c\<lparr>c_expired := 1\<rparr> else c)
              (RDS_catalog db),
        statements := statements db @
          [''update RDS_catalog set expired = 1 where rds_id in ('' @ cstr fp @ '')'']\<rparr>
   \<and> RDS (tagsistant_RDS_invalidate fp db) = RDS db
   \<and> map c_rds_id (RDS_catalog (tagsistant_RDS_invalidate fp db)) = map c_rds_id (RDS_catalog db)
   \<and> map c_subquery (RDS_catalog (tagsistant_RDS_invalidate fp db)) = map c_subquery (RDS_catalog db)
   \<and> (catalog_wf db \<and> c \<in> set (RDS_catalog db) \<and> c_expired c = 1
        \<and> c' \<in> set (RDS_catalog (run_calls calls db)) \<and> c_rds_id c' = c_rds_id c
        \<longrightarrow> c_expired c' = 1)
   \<and> (\<not> call_rebuilds call \<and> c \<in> set (RDS_catalog db)
        \<longrightarrow> c_rds_id c \<in> set (map c_rds_id (RDS_catalog (run_call call db))))"
proof -
  have mono: "c_expired c' = 1"
    if h: "catalog_wf db \<and> c \<in> set (RDS_catalog db) \<and> c_expired c = 1
        \<and> c' \<in> set (RDS_catalog (run_calls calls db)) \<and> c_rds_id c' = c_rds_id c"
  proof -
    from h have wf: "catalog_wf db" and c: "c \<in> set (RDS_catalog db)" "c_expired c = 1"
      and c': "c' \<in> set (RDS_catalog (run_calls calls db))" "c_rds_id c' = c_rds_id c"
      by simp_all
    from wf c(1) have bound: "c_rds_id c \<le> autoincrement db" by (simp add: wf_bounded)
    from calls_evolve [of db calls] c'(1)
    have "autoincrement db < c_rds_id c'
        \<or> (\<exists>x \<in> set (RDS_catalog db). c_rds_id c' = c_rds_id x \<and> (c_expired c' = c_expired x \<or> c_expired c' = 1))"
      unfolding catalog_evolves_def by blast
    then show ?thesis
    proof
      assume "autoincrement db < c_rds_id c'"
      with bound c'(2) show ?thesis by simp
    next
      assume "\<exists>x \<in> set (RDS_catalog db). c_rds_id c' = c_rds_id x \<and> (c_expired c' = c_expired x \<or> c_expired c' = 1)"
      then obtain x where x: "x \<in> set (RDS_catalog db)" "c_rds_id c' = c_rds_id x"
        "c_expired c' = c_expired x \<or> c_expired c' = 1" by blast
      from wf x(1) c(1) x(2) c'(2) have "x = c" by (intro wf_same_id [of db]) simp_all
      with x(3) c(2) show ?thesis by auto
    qed
  qed
  have eq: "tagsistant_RDS_invalidate fp db =
     db\<lparr>RDS_catalog :=
          map (\<lambda>c. if c_rds_id c \<in> set (fingerprint_ids (cstr fp)) then c\<lparr>c_expired := 1\<rparr> else c)
              (RDS_catalog db),
        statements := statements db @
          [''update RDS_catalog set expired = 1 where rds_id in ('' @ cstr fp @ '')'']\<rparr>"
    by (rule invalidate_eq)
  have keep: "c_rds_id c \<in> set (map c_rds_id (RDS_catalog (run_call call db)))"
    if "\<not> call_rebuilds call \<and> c \<in> set (RDS_catalog db)"
    using that call_keeps by blast
  from eq invalidate_fields [of fp db] mono keep show ?thesis
    by blast
qed

section \<open>Phase 4\<close>

lemma node_condition_covers:
  assumes "list_all atom_well_formed (related_chain (Some m))"
    and "a \<in> set (related_chain (Some m))"
  shows "set (spec_tagged_inodes cmp db a)
     \<subseteq> set (map o_inode (selected_objects (eval_condition cmp (node_condition m)) db))"
proof -
  have "eval_condition cmp (node_condition m) row" if "spec_atom_matches cmp a row" for row
    unfolding node_condition_eval [OF assms(1)] list_ex_iff using assms(2) that by blast
  then have "set (selected_objects (spec_atom_matches cmp a) db)
      \<subseteq> set (selected_objects (eval_condition cmp (node_condition m)) db)"
    unfolding selected_objects_def by auto
  then show ?thesis
    unfolding spec_tagged_inodes_def by auto
qed

lemma delete_in_excludes:
  assumes "list_all atom_well_formed (related_chain (Some m))"
    and "list_all atom_strings_safe (related_chain (Some m))"
    and "r \<in> set (RDS (tagsistant_query (phase_4_text i m) (sql_execute cmp (phase_4_text i m)) db))"
  shows "\<not> (r_rds_id r = i
             \<and> r_inode r \<in> set (map o_inode (selected_objects (eval_condition cmp (node_condition m)) db)))"
proof -
  define db0 where "db0 = db\<lparr>statements := statements db @ [phase_4_text i m]\<rparr>"
  have sel: "selected_objects p db0 = selected_objects p db" for p
    unfolding db0_def by (rule selected_objects_cong) simp_all
  have "tagsistant_query (phase_4_text i m) (sql_execute cmp (phase_4_text i m)) db
      = run_statement cmp (Delete_Where False i (node_condition m)) db0"
    unfolding tagsistant_query_def db0_def using assms(1,2) by (rule execute_phase_4_safe)
  with assms(3) have "r \<in> set (RDS (run_statement cmp (Delete_Where False i (node_condition m)) db0))"
    by simp
  then show ?thesis
    by (simp add: sel)
qed

lemma only_deletes_rows:
  "only_deletes_rds db db' \<Longrightarrow> r \<in> set (RDS db') \<Longrightarrow> r \<in> set (RDS db)"
  unfolding only_deletes_rds_def by blast

lemma phase_4_negated_excludes:
  assumes "m \<in> set (negated_chain start)"
    and "list_all atom_well_formed (related_chain (Some m))"
    and "list_all atom_strings_safe (related_chain (Some m))"
    and "r \<in> set (RDS (phase_4_negated_loop cmp i start db))"
  shows "\<not> (r_rds_id r = i
             \<and> r_inode r \<in> set (map o_inode (selected_objects (eval_condition cmp (node_condition m)) db)))"
  using assms
proof (induction cmp i start db rule: phase_4_negated_loop.induct)
  case (1 cmp rds_id db)
  then show ?case by simp
next
  case (2 cmp rds_id neg db)
  define p where "p = eval_condition cmp (node_condition m)"
  define db1 where "db1 = tagsistant_query (phase_4_text rds_id neg) (sql_execute cmp (phase_4_text rds_id neg)) db"
  have od: "only_deletes_rds db db1" unfolding db1_def by (rule delete_in_only_deletes)
  then have sel: "selected_objects p db1 = selected_objects p db" by (rule only_deletes_selected)
  from "2.prems"(4) have fin: "r \<in> set (RDS (phase_4_negated_loop cmp rds_id (negated neg) db1))"
    unfolding db1_def by simp
  have "only_deletes_rds db1 (phase_4_negated_loop cmp rds_id (negated neg) db1)"
    by (rule phase_4_negated_loop_only_deletes)
  then have r1: "r \<in> set (RDS db1)" using fin by (rule only_deletes_rows)
  from "2.prems"(1) have "m = neg \<or> m \<in> set (negated_chain (negated neg))" by simp
  then have "\<not> (r_rds_id r = rds_id \<and> r_inode r \<in> set (map o_inode (selected_objects p db)))"
  proof
    assume "m = neg"
    with "2.prems"(2,3) r1 show ?thesis
      unfolding db1_def p_def by (intro delete_in_excludes) simp_all
  next
    assume "m \<in> set (negated_chain (negated neg))"
    from "2.IH" [OF this "2.prems"(2,3) fin [unfolded db1_def]] show ?thesis
      unfolding p_def [symmetric] sel [unfolded db1_def] .
  qed
  then show ?case unfolding p_def .
qed

lemma phase_4_excludes:
  assumes "m \<in> set (concat (map (\<lambda>n. negated_chain (negated n)) (next_chain start)))"
    and "list_all atom_well_formed (related_chain (Some m))"
    and "list_all atom_strings_safe (related_chain (Some m))"
    and "r \<in> set (RDS (phase_4_loop cmp i start db))"
  shows "\<not> (r_rds_id r = i
             \<and> r_inode r \<in> set (map o_inode (selected_objects (eval_condition cmp (node_condition m)) db)))"
  using assms
proof (induction cmp i start db rule: phase_4_loop.induct)
  case (1 cmp rds_id db)
  then show ?case by simp
next
  case (2 cmp rds_id nxt db)
  define p where "p = eval_condition cmp (node_condition m)"
  define db1 where "db1 = phase_4_negated_loop cmp rds_id (negated nxt) db"
  have od: "only_deletes_rds db db1" unfolding db1_def by (rule phase_4_negated_loop_only_deletes)
  then have sel: "selected_objects p db1 = selected_objects p db" by (rule only_deletes_selected)
  from "2.prems"(4) have fin: "r \<in> set (RDS (phase_4_loop cmp rds_id (next_and nxt) db1))"
    unfolding db1_def by simp
  have "only_deletes_rds db1 (phase_4_loop cmp rds_id (next_and nxt) db1)"
    by (rule phase_4_loop_only_deletes)
  then have r1: "r \<in> set (RDS db1)" using fin by (rule only_deletes_rows)
  from "2.prems"(1) have "m \<in> set (negated_chain (negated nxt))
      \<or> m \<in> set (concat (map (\<lambda>n. negated_chain (negated n)) (next_chain (next_and nxt))))"
    by auto
  then have "\<not> (r_rds_id r = rds_id \<and> r_inode r \<in> set (map o_inode (selected_objects p db)))"
  proof
    assume "m \<in> set (negated_chain (negated nxt))"
    from this "2.prems"(2,3) r1 [unfolded db1_def] show ?thesis
      unfolding p_def by (rule phase_4_negated_excludes)
  next
    assume "m \<in> set (concat (map (\<lambda>n. negated_chain (negated n)) (next_chain (next_and nxt))))"
    from "2.IH" [OF this "2.prems"(2,3) fin [unfolded db1_def]] show ?thesis
      unfolding p_def [symmetric] sel [unfolded db1_def] .
  qed
  then show ?case unfolding p_def .
qed

lemma build_excludes:
  assumes "m \<in> set (builder_negated_atoms q)"
    and "list_all atom_well_formed (related_chain (Some m))"
    and "list_all atom_strings_safe (related_chain (Some m))"
    and "r \<in> set (RDS (snd (tagsistant_RDS_build cmp q s db)))"
  shows "\<not> (r_rds_id r = fst (tagsistant_RDS_build cmp q s db)
             \<and> r_inode r \<in> set (map o_inode (selected_objects (eval_condition cmp (node_condition m)) db)))"
proof -
  define p where "p = eval_condition cmp (node_condition m)"
  from assms(1) obtain head where head: "and_set q = Some head"
    by (cases "and_set q") (simp_all add: builder_negated_atoms_def main_atoms_def)
  define db1 where "db1 = tagsistant_query
      (''insert into RDS_catalog (subquery) values ('' @ sq @ s @ sq @ '')'') (sql_insert_catalog s) db"
  define i where "i = tagsistant_last_insert_id db1"
  define db2 where "db2 = tagsistant_query (phase_2_text i head) (sql_execute cmp (phase_2_text i head)) db1"
  define db3 where "db3 = phase_3_loop cmp i (next_and head) db2"
  from head have b: "tagsistant_RDS_build cmp q s db = (i, phase_4_loop cmp i (Some head) db3)"
    by (simp add: tagsistant_RDS_build_def Let_def db1_def i_def db2_def db3_def)
  have t1: "objects db1 = objects db" "tagging db1 = tagging db" "tags db1 = tags db"
    unfolding db1_def using insert_catalog_fields by blast+
  have t2: "objects db2 = objects db1" "tagging db2 = tagging db1" "tags db2 = tags db1"
    unfolding db2_def using insert_rds_select_fields by blast+
  have "only_deletes_rds db2 db3"
    unfolding db3_def by (rule phase_3_loop_only_deletes)
  then have t3: "objects db3 = objects db" "tagging db3 = tagging db" "tags db3 = tags db"
    unfolding only_deletes_rds_def using t1 t2 by simp_all
  then have sel: "selected_objects p db3 = selected_objects p db"
    by (intro selected_objects_cong)
  from assms(1) head have m: "m \<in> set (concat (map (\<lambda>n. negated_chain (negated n)) (next_chain (Some head))))"
    by (simp add: builder_negated_atoms_def main_atoms_def)
  from assms(4) have "r \<in> set (RDS (phase_4_loop cmp i (Some head) db3))"
    unfolding b by simp
  with m assms(2,3) have "\<not> (r_rds_id r = i \<and> r_inode r \<in> set (map o_inode (selected_objects p db3)))"
    unfolding p_def by (rule phase_4_excludes)
  then have "\<not> (r_rds_id r = i \<and> r_inode r \<in> set (map o_inode (selected_objects p db)))"
    unfolding sel .
  then show ?thesis unfolding b p_def by simp
qed

text \<open>
  C4 (as the code has it). For a conjunction with a negated atom \<open>m\<close> (an atom phase 4 reaches: from a main
  atom's \<open>negated\<close> pointer, then along \<open>negated\<close>) whose related chain holds atoms of
  the three kinds of the data model with no quote and no backslash in their strings,
  the RDS that \<open>tagsistant_RDS_build\<close> materializes holds no inode tagged by \<open>m\<close> or by
  an atom of \<open>m\<close>'s related chain: the engine reads in the text of the statement of
  phase 4 the delete of the rows whose inode carries \<open>m\<close> or an atom related to it.
\<close>

theorem negation_excluded:
  assumes "m \<in> set (builder_negated_atoms q)"
    and "list_all atom_well_formed (related_chain (Some m))"
    and "list_all atom_strings_safe (related_chain (Some m))"
    and "a \<in> set (related_chain (Some m))"
    and "tagsistant_RDS_build cmp q subquery db = (rds_id, db')"
  shows "\<forall>r \<in> set (RDS db'). r_rds_id r = rds_id \<longrightarrow> r_inode r \<notin> set (spec_tagged_inodes cmp db a)"
proof (intro ballI impI)
  fix r assume r: "r \<in> set (RDS db')" and i: "r_rds_id r = rds_id"
  from r assms(5) have "r \<in> set (RDS (snd (tagsistant_RDS_build cmp q subquery db)))" by simp
  with assms(1,2,3) have "\<not> (r_rds_id r = fst (tagsistant_RDS_build cmp q subquery db)
       \<and> r_inode r \<in> set (map o_inode (selected_objects (eval_condition cmp (node_condition m)) db)))"
    by (rule build_excludes)
  with i assms(5)
  have "r_inode r \<notin> set (map o_inode (selected_objects (eval_condition cmp (node_condition m)) db))"
    by simp
  moreover from assms(2,4)
  have "set (spec_tagged_inodes cmp db a)
      \<subseteq> set (map o_inode (selected_objects (eval_condition cmp (node_condition m)) db))"
    by (rule node_condition_covers)
  ultimately show "r_inode r \<notin> set (spec_tagged_inodes cmp db a)" by blast
qed

section \<open>The theorems on the example database\<close>

lemma example_db_wf: "catalog_wf example_db"
  by (simp add: catalog_wf_def example_db_def)

lemma expired_db_wf: "catalog_wf expired_db"
  by (simp add: catalog_wf_def expired_db_def example_db_def)

lemma example_prepare_one:
  "fst (tagsistant_RDS_prepare example_cmp (Some red_and_big) False False example_db) = Some ''1''"
  by code_simp

lemma example_subqueries:
  "tagsistant_RDS_build_subquery red_and_big = ''red/big/''"
  "tagsistant_RDS_build_subquery red_not_big = ''red/-/big/''"
  "tagsistant_RDS_build_subquery red_and_big_twice = ''red/big/''"
  "tagsistant_RDS_build_subquery red_not_big_or_red_and_big = ''red/-/big/''"
  by code_simp+

lemma example_links:
  "next_or red_and_big = None"
  "next_or red_and_big_twice = Some red_and_big"
  "next_or red_not_big_or_red_and_big = Some red_and_big"
  by (simp_all add: red_and_big_def red_and_big_twice_def red_not_big_or_red_and_big_def)

lemma show_int_examples: "show_int 1 = ''1''" "show_int 2 = ''2''"
  by code_simp+

lemma example_prepare_two:
  "fst (tagsistant_RDS_prepare example_cmp (Some red_not_big_or_red_and_big) False False example_db)
     = Some ''1, 2''"
proof -
  have "fst (prepare_run example_cmp False (Some red_not_big_or_red_and_big) example_db) = [1, 2]"
    by (simp add: prepare_run_Some example_links example_subqueries step_lookup select_rows
        example_db_def)
  then show ?thesis
    by (simp add: prepare_run_eq show_int_examples)
qed

theorem prepare_cache_hit_witness:
  "catalog_wf example_db
   \<and> fst (tagsistant_RDS_prepare example_cmp (Some red_and_big) False False example_db) = Some ''1''
   \<and> fst (tagsistant_RDS_prepare example_cmp (Some red_and_big) False False
          (snd (tagsistant_RDS_prepare example_cmp (Some red_and_big) False False example_db)))
       = Some ''1''
   \<and> RDS_catalog (snd (tagsistant_RDS_prepare example_cmp (Some red_and_big) False False
          (snd (tagsistant_RDS_prepare example_cmp (Some red_and_big) False False example_db))))
       = RDS_catalog (snd (tagsistant_RDS_prepare example_cmp (Some red_and_big) False False example_db))"
proof -
  define db1 where "db1 = snd (tagsistant_RDS_prepare example_cmp (Some red_and_big) False False example_db)"
  define db2 where "db2 = snd (tagsistant_RDS_prepare example_cmp (Some red_and_big) False False db1)"
  have first: "tagsistant_RDS_prepare example_cmp (Some red_and_big) False False example_db
       = (Some ''1'', db1)"
    unfolding db1_def using example_prepare_one by (simp add: prod_eq_iff)
  obtain F' where second: "tagsistant_RDS_prepare example_cmp (Some red_and_big) False False db1
       = (Some F', db2)"
    unfolding db2_def by (simp add: prepare_run_eq)
  from prepare_cache_hit [OF example_db_wf first second]
  have "F' = ''1''" and "RDS_catalog db2 = RDS_catalog db1" by blast+
  with example_db_wf first second show ?thesis
    unfolding db1_def [symmetric] db2_def [symmetric] by simp
qed

theorem rebuild_purges_old_rds_witness:
  "catalog_wf example_db
   \<and> fst (tagsistant_RDS_prepare example_cmp (Some red_and_big) False False example_db) = Some ''1''
   \<and> fst (tagsistant_RDS_prepare example_cmp (Some red_and_big) False True
          (tagsistant_RDS_invalidate (Some ''1'')
            (snd (tagsistant_RDS_prepare example_cmp (Some red_and_big) False False example_db))))
       = Some ''2''
   \<and> filter (\<lambda>r. r_rds_id r \<in> set (fingerprint_ids ''1''))
        (RDS (snd (tagsistant_RDS_prepare example_cmp (Some red_and_big) False True
          (tagsistant_RDS_invalidate (Some ''1'')
            (snd (tagsistant_RDS_prepare example_cmp (Some red_and_big) False False example_db))))))
       = []
   \<and> set (fingerprint_ids ''2'') \<inter> set (fingerprint_ids ''1'') = {}"
proof -
  define db1 where "db1 = snd (tagsistant_RDS_prepare example_cmp (Some red_and_big) False False example_db)"
  define db3 where "db3 = snd (tagsistant_RDS_prepare example_cmp (Some red_and_big) False True
      (tagsistant_RDS_invalidate (Some ''1'') db1))"
  have first: "tagsistant_RDS_prepare example_cmp (Some red_and_big) False False example_db
       = (Some ''1'', db1)"
    unfolding db1_def using example_prepare_one by (simp add: prod_eq_iff)
  have "fst (tagsistant_RDS_prepare example_cmp (Some red_and_big) False True
          (tagsistant_RDS_invalidate (Some ''1'')
            (snd (tagsistant_RDS_prepare example_cmp (Some red_and_big) False False example_db))))
       = Some ''2''"
    by code_simp
  then have second: "tagsistant_RDS_prepare example_cmp (Some red_and_big) False True
      (tagsistant_RDS_invalidate (Some ''1'') db1) = (Some ''2'', db3)"
    unfolding db3_def db1_def by (simp add: prod_eq_iff)
  from rebuild_purges_old_rds [OF example_db_wf first second]
  have "\<forall>r \<in> set (RDS db3). r_rds_id r \<notin> set (fingerprint_ids ''1'')"
    and "set (fingerprint_ids ''2'') \<inter> set (fingerprint_ids ''1'') = {}"
    by blast+
  then have "filter (\<lambda>r. r_rds_id r \<in> set (fingerprint_ids ''1'')) (RDS db3) = []"
    and "set (fingerprint_ids ''2'') \<inter> set (fingerprint_ids ''1'') = {}"
    by (simp_all add: filter_empty_conv)
  with example_db_wf first second show ?thesis
    unfolding db1_def [symmetric] db3_def [symmetric] by simp
qed

theorem negation_excluded_witness:
  "fst (tagsistant_RDS_build example_cmp red_not_big ''red/-/big/'' example_db) = 1
   \<and> spec_tagged_inodes example_cmp example_db (named_atom ''big'' None None None) = [2, 3]
   \<and> map r_inode (RDS (snd (tagsistant_RDS_build example_cmp red_not_big ''red/-/big/'' example_db))) = [1]
   \<and> \<not> list_ex (\<lambda>r. r_rds_id r = 1
                    \<and> r_inode r \<in> set (spec_tagged_inodes example_cmp example_db (named_atom ''big'' None None None)))
          (RDS (snd (tagsistant_RDS_build example_cmp red_not_big ''red/-/big/'' example_db)))"
proof -
  let ?big = "named_atom ''big'' None None None"
  define db' where "db' = snd (tagsistant_RDS_build example_cmp red_not_big ''red/-/big/'' example_db)"
  have i: "fst (tagsistant_RDS_build example_cmp red_not_big ''red/-/big/'' example_db) = 1"
    by code_simp
  then have b: "tagsistant_RDS_build example_cmp red_not_big ''red/-/big/'' example_db = (1, db')"
    unfolding db'_def by (simp add: prod_eq_iff)
  have m: "?big \<in> set (builder_negated_atoms red_not_big)"
    by (simp add: builder_negated_atoms_def main_atoms_def red_not_big_def named_atom_def)
  have w: "list_all atom_well_formed (related_chain (Some ?big))"
    by (simp add: atom_well_formed_def named_atom_def)
  have s: "list_all atom_strings_safe (related_chain (Some ?big))"
    by (simp add: atom_strings_safe_def sql_safe_def cstr_def named_atom_def)
  have a: "?big \<in> set (related_chain (Some ?big))"
    by simp
  have t: "spec_tagged_inodes example_cmp example_db ?big = [2, 3]"
    by code_simp
  have r: "map r_inode (RDS (snd (tagsistant_RDS_build example_cmp red_not_big ''red/-/big/'' example_db))) = [1]"
    by code_simp
  from negation_excluded [OF m w s a b]
  have "\<forall>r \<in> set (RDS db'). r_rds_id r = 1 \<longrightarrow> r_inode r \<notin> set (spec_tagged_inodes example_cmp example_db ?big)" .
  then have "\<not> list_ex (\<lambda>r. r_rds_id r = 1 \<and> r_inode r \<in> set (spec_tagged_inodes example_cmp example_db ?big)) (RDS db')"
    unfolding list_ex_iff by blast
  with i t r show ?thesis unfolding db'_def by blast
qed

text \<open>
  C4 as stated fails. For \<open>red\<close> without \<open>it's\<close> the statement of phase 4 carries the
  tag as it is; the quote of the tag closes the literal, the last quote opens one that
  is never closed, and the statement fails. Inode 2, which is tagged \<open>it's\<close>, stays in
  the RDS that the build materializes.
\<close>

theorem negated_quote_counterexample:
  "named_atom ''it's'' None None None \<in> set (builder_negated_atoms red_not_quote)
   \<and> atom_well_formed (named_atom ''it's'' None None None)
   \<and> \<not> atom_strings_safe (named_atom ''it's'' None None None)
   \<and> tagsistant_RDS_build_subquery red_not_quote = ''red/-/it's/''
   \<and> phase_4_text 1 (named_atom ''it's'' None None None)
       = ''delete from RDS where rds_id = 1 and inode in (select objects.inode from objects join tagging on tagging.inode = objects.inode join tags on tags.tag_id = tagging.tag_id where tagname = 'it's' )''
   \<and> sql_tokens False [] (phase_4_text 1 (named_atom ''it's'' None None None)) = None
   \<and> spec_tagged_inodes example_cmp quote_db (named_atom ''it's'' None None None) = [2]
   \<and> map r_inode (RDS (snd (tagsistant_RDS_build example_cmp red_not_quote ''red/-/it's/'' quote_db)))
       = [1, 2]
   \<and> list_ex (\<lambda>r. r_rds_id r = fst (tagsistant_RDS_build example_cmp red_not_quote ''red/-/it's/'' quote_db)
                  \<and> r_inode r \<in> set (spec_tagged_inodes example_cmp quote_db (named_atom ''it's'' None None None)))
        (RDS (snd (tagsistant_RDS_build example_cmp red_not_quote ''red/-/it's/'' quote_db)))"
  by code_simp

theorem fingerprint_names_entries_witness:
  "fst (tagsistant_RDS_prepare example_cmp (Some red_and_big) False True example_db) = Some ''1''
   \<and> fingerprint_ids ''1'' = [1]
   \<and> list_ex (\<lambda>c. c_rds_id c = 1 \<and> c_expired c = 0)
        (RDS_catalog (snd (tagsistant_RDS_prepare example_cmp (Some red_and_big) False True example_db)))"
proof -
  define db' where "db' = snd (tagsistant_RDS_prepare example_cmp (Some red_and_big) False True example_db)"
  have f: "fst (tagsistant_RDS_prepare example_cmp (Some red_and_big) False True example_db) = Some ''1''"
    by code_simp
  then have p: "tagsistant_RDS_prepare example_cmp (Some red_and_big) False True example_db = (Some ''1'', db')"
    unfolding db'_def by (simp add: prod_eq_iff)
  have d: "True \<longrightarrow> distinct (subqueries (Some red_and_big))"
    by (simp add: subqueries_def red_and_big_def)
  have ids: "fingerprint_ids ''1'' = [1]"
    by code_simp
  from fingerprint_names_entries [OF d p]
  have "\<forall>i \<in> set (fingerprint_ids ''1''). \<exists>c \<in> set (RDS_catalog db').
      c_rds_id c = i \<and> (c_expired c = 0 \<or> (\<not> True \<and> c \<in> set (RDS_catalog example_db)))" .
  with ids have "\<exists>c \<in> set (RDS_catalog db'). c_rds_id c = 1 \<and> c_expired c = 0" by simp
  then have "list_ex (\<lambda>c. c_rds_id c = 1 \<and> c_expired c = 0) (RDS_catalog db')"
    unfolding list_ex_iff .
  with f ids show ?thesis unfolding db'_def by blast
qed

text \<open>
  C5 as stated fails. After \<open>red/big/\<close> was prepared and invalidated, its catalog entry
  has the flag 1; a prepare without rebuild returns the id of that entry, and the flag
  is still 1 when the call returns.
\<close>

theorem prepare_returns_expired_counterexample:
  "RDS_catalog (tagsistant_RDS_invalidate (Some ''1'')
       (snd (tagsistant_RDS_prepare example_cmp (Some red_and_big) False False example_db)))
     = RDS_catalog expired_db
   \<and> catalog_wf expired_db
   \<and> fst (tagsistant_RDS_prepare example_cmp (Some red_and_big) False False expired_db) = Some ''1''
   \<and> RDS_catalog (snd (tagsistant_RDS_prepare example_cmp (Some red_and_big) False False expired_db))
     = [\<lparr>c_rds_id = 1, c_subquery = ''red/big/'', c_expired = 1\<rparr>]"
proof -
  have "RDS_catalog (tagsistant_RDS_invalidate (Some ''1'')
       (snd (tagsistant_RDS_prepare example_cmp (Some red_and_big) False False example_db)))
     = RDS_catalog expired_db"
    by code_simp
  moreover have "fst (tagsistant_RDS_prepare example_cmp (Some red_and_big) False False expired_db) = Some ''1''"
    by code_simp
  moreover have "RDS_catalog (snd (tagsistant_RDS_prepare example_cmp (Some red_and_big) False False expired_db))
     = [\<lparr>c_rds_id = 1, c_subquery = ''red/big/'', c_expired = 1\<rparr>]"
    by code_simp
  ultimately show ?thesis using expired_db_wf by blast
qed

text \<open>
  With rebuild set and the same subquery twice in one disjunction, the second
  conjunction deletes the entry the first one built: the fingerprint lists the ids 1
  and 2, and the catalog holds the entry 2 only.
\<close>

lemma rebuild_same_subquery_twice:
  "fst (tagsistant_RDS_prepare example_cmp (Some red_and_big_twice) False True example_db) = Some ''1, 2''
   \<and> map c_rds_id
        (RDS_catalog (snd (tagsistant_RDS_prepare example_cmp (Some red_and_big_twice) False True example_db)))
     = [2]"
proof -
  have "fst (prepare_run example_cmp True (Some red_and_big_twice) example_db) = [1, 2]"
    by (simp add: prepare_run_Some example_links step_rebuild example_db_def)
  moreover have "map c_rds_id (RDS_catalog (snd (prepare_run example_cmp True (Some red_and_big_twice) example_db))) = [2]"
    by (simp add: prepare_run_Some example_links example_subqueries step_rebuild example_db_def)
  ultimately show ?thesis
    by (simp add: prepare_run_eq show_int_examples)
qed

theorem fingerprint_format_witness:
  "catalog_wf example_db
   \<and> ''1, 2'' = join_with '', '' (map show_int (fingerprint_ids ''1, 2''))
   \<and> length (fingerprint_ids ''1, 2'') = length (or_chain (Some red_not_big_or_red_and_big))
   \<and> list_all is_decimal_id (map show_int (fingerprint_ids ''1, 2''))
   \<and> fingerprint_ids ''1, 2'' =
        map (\<lambda>c. sql_select_rds_id (tagsistant_RDS_build_subquery c)
               (snd (tagsistant_RDS_prepare example_cmp (Some red_not_big_or_red_and_big) False False example_db)))
            (or_chain (Some red_not_big_or_red_and_big))"
proof -
  define db' where "db' = snd (tagsistant_RDS_prepare example_cmp (Some red_not_big_or_red_and_big) False False example_db)"
  have p: "tagsistant_RDS_prepare example_cmp (Some red_not_big_or_red_and_big) False False example_db
      = (Some ''1, 2'', db')"
    unfolding db'_def using example_prepare_two by (simp add: prod_eq_iff)
  have h: "catalog_wf example_db \<and> (False \<longrightarrow> distinct (subqueries (Some red_not_big_or_red_and_big)))"
    using example_db_wf by simp
  from fingerprint_format [OF p] example_db_wf h show ?thesis
    unfolding db'_def by blast
qed

text \<open>
  C6 as stated fails: the ids of a fingerprint of two conjunctions are joined by a comma
  and a blank, which the grammar \<open>id ("," id)*\<close> does not admit.
\<close>

theorem fingerprint_grammar_counterexample:
  "fst (tagsistant_RDS_prepare example_cmp (Some red_not_big_or_red_and_big) False False example_db)
     = Some ''1, 2''
   \<and> \<not> fingerprint_grammar ''1, 2''"
proof -
  have "\<not> fingerprint_grammar ''1, 2''"
    by (simp add: fingerprint_grammar_def is_decimal_id_def)
  with example_prepare_two show ?thesis by blast
qed

theorem invalidate_sets_flag_only_witness:
  "catalog_wf expired_db
   \<and> RDS_catalog expired_db = [\<lparr>c_rds_id = 1, c_subquery = ''red/big/'', c_expired = 1\<rparr>]
   \<and> map c_rds_id (RDS_catalog
         (run_calls [Invalidate (Some ''1''), Prepare example_cmp (Some red_and_big) False False] expired_db))
       = [1]
   \<and> c_expired (last (RDS_catalog
         (run_calls [Invalidate (Some ''1''), Prepare example_cmp (Some red_and_big) False False] expired_db)))
       = 1
   \<and> 1 \<in> set (map c_rds_id (RDS_catalog (run_call (Invalidate (Some ''1'')) expired_db)))"
proof -
  let ?row = "\<lparr>c_rds_id = 1, c_subquery = ''red/big/'', c_expired = 1\<rparr>"
  let ?calls = "[Invalidate (Some ''1''), Prepare example_cmp (Some red_and_big) False False]"
  define after where "after = RDS_catalog (run_calls ?calls expired_db)"
  note inst = invalidate_sets_flag_only [of "Some ''1''" expired_db ?row "last after" ?calls
      "Invalidate (Some ''1'')"]
  have c0: "RDS_catalog expired_db = [?row]"
    by (simp add: expired_db_def example_db_def)
  have c1: "map c_rds_id (RDS_catalog (run_calls ?calls expired_db)) = [1]"
    by code_simp
  then have ids: "map c_rds_id after = [1]" unfolding after_def .
  then have ne: "after \<noteq> []" by auto
  then have m1: "last after \<in> set after" by (rule last_in_set)
  from ids ne have i1: "c_rds_id (last after) = c_rds_id ?row"
    by (cases after) auto
  have m0: "?row \<in> set (RDS_catalog expired_db)"
    unfolding c0 by simp
  have e0: "c_expired ?row = 1" by simp
  from expired_db_wf m0 e0 m1 i1
  have h: "catalog_wf expired_db \<and> ?row \<in> set (RDS_catalog expired_db) \<and> c_expired ?row = 1
      \<and> last after \<in> set (RDS_catalog (run_calls ?calls expired_db))
      \<and> c_rds_id (last after) = c_rds_id ?row"
    unfolding after_def by blast
  from inst
  have "catalog_wf expired_db \<and> ?row \<in> set (RDS_catalog expired_db) \<and> c_expired ?row = 1
      \<and> last after \<in> set (RDS_catalog (run_calls ?calls expired_db))
      \<and> c_rds_id (last after) = c_rds_id ?row
      \<longrightarrow> c_expired (last after) = 1"
    by (elim conjE)
  from this h have r1: "c_expired (last after) = 1" by (rule mp)
  have h2: "\<not> call_rebuilds (Invalidate (Some ''1'')) \<and> ?row \<in> set (RDS_catalog expired_db)"
    using m0 by simp
  from inst
  have "\<not> call_rebuilds (Invalidate (Some ''1'')) \<and> ?row \<in> set (RDS_catalog expired_db)
      \<longrightarrow> c_rds_id ?row \<in> set (map c_rds_id (RDS_catalog (run_call (Invalidate (Some ''1'')) expired_db)))"
    by (elim conjE)
  from this h2 have "c_rds_id ?row \<in> set (map c_rds_id (RDS_catalog (run_call (Invalidate (Some ''1'')) expired_db)))"
    by (rule mp)
  then have r2: "1 \<in> set (map c_rds_id (RDS_catalog (run_call (Invalidate (Some ''1'')) expired_db)))"
    by (simp only: catalog_row.simps)
  from expired_db_wf c0 c1 r1 r2 show ?thesis unfolding after_def by blast
qed

text \<open>
  C10 fails on the code. For \<open>red\<close> with the negated atom \<open>blue\<close> whose \<open>negated\<close>
  pointer leads to \<open>big\<close>, the canonicalizer serializes \<open>blue\<close> only, and the cache key
  is that of \<open>red/-/blue/\<close>; phase 4 subtracts \<open>blue\<close> and \<open>big\<close>, so that the same key
  stands for two different row sets.
\<close>

theorem negated_traversals_differ:
  "map tag (canonical_negated_atoms red_not_blue_not_big) = [Some ''blue'']
   \<and> map tag (builder_negated_atoms red_not_blue_not_big) = [Some ''blue'', Some ''big'']
   \<and> tagsistant_RDS_build_subquery red_not_blue_not_big = ''red/-/blue/''
   \<and> tagsistant_RDS_build_subquery red_not_blue = ''red/-/blue/''
   \<and> map r_inode (RDS (snd (tagsistant_RDS_build example_cmp red_not_blue_not_big ''red/-/blue/'' example_db)))
       = [1]
   \<and> map r_inode (RDS (snd (tagsistant_RDS_build example_cmp red_not_blue ''red/-/blue/'' example_db)))
       = [1, 2]"
  by code_simp

end
